theory Spec2Isabelle
  imports Main
begin

section \<open>DrawMeATree: the tree builder and the trace parser of draw.py\<close>

text \<open>
  The program turns the output of WinDbg's \<^verbatim>\<open>wt\<close> command into a tree of anytree
  \<^verbatim>\<open>Node\<close> objects. Python objects are mutable and are reached through references
  (\<^verbatim>\<open>curr_node\<close>, \<^verbatim>\<open>curr_node.parent\<close>), so the nodes live in an explicit store: a
  list of node cells, a reference being the index of a cell and Python's \<^verbatim>\<open>None\<close>
  being \<open>None\<close>. Python integers are \<open>int\<close>; strings are lists of characters, one
  \<open>char\<close> per code point below 256. Every exception the code can raise is a value of
  \<open>error\<close>.
\<close>

subsection \<open>Exceptions\<close>

datatype error =
    AttributeError
      \<comment> \<open>\<^verbatim>\<open>None.parent\<close> or \<^verbatim>\<open>None.name\<close>\<close>
  | IndexError
      \<comment> \<open>\<^verbatim>\<open>words[3]\<close> or \<^verbatim>\<open>words[4]\<close> out of range\<close>
  | ValueError_int string
      \<comment> \<open>\<^verbatim>\<open>int(s)\<close> on a string that is no decimal literal\<close>
  | ValueError_parse
      \<comment> \<open>"Couldn't parse input file: ..."\<close>
  | ValueError_add int string int string
      \<comment> \<open>"Couldn't add entry (curr_lvl, function) to node (index, curr_node.name)."\<close>
  | ValueError_att string
      \<comment> \<open>"Couldn't retrieve attribute of node: module_node."\<close>
  | ValueError_index string
      \<comment> \<open>\<^verbatim>\<open>xs.index(x)\<close> when \<open>x\<close> is not in the list\<close>

subsection \<open>The store of anytree nodes\<close>

record node =
  name :: string
  parent :: "nat option"

text \<open>
  \<^verbatim>\<open>Node(function, parent=p)\<close> allocates a fresh cell. anytree appends the new node to
  the children of \<open>p\<close>, and no node of this program is ever re-parented or detached, so
  the children of a node are the cells whose \<open>parent\<close> is that node, in order of
  allocation.
\<close>

definition Node :: "node list \<Rightarrow> string \<Rightarrow> nat option \<Rightarrow> node list \<times> nat" where
  "Node h nm p = (h @ [\<lparr>name = nm, parent = p\<rparr>], length h)"

text \<open>\<^verbatim>\<open>x.parent\<close>, which raises AttributeError when \<open>x\<close> is \<^verbatim>\<open>None\<close>.\<close>

fun get_parent :: "node list \<Rightarrow> nat option \<Rightarrow> error + nat option" where
  "get_parent h None = Inl AttributeError"
| "get_parent h (Some i) = Inr (parent (h ! i))"

text \<open>The loop \<^verbatim>\<open>for i in range(k): curr_node = curr_node.parent\<close>.\<close>

fun walk_up :: "node list \<Rightarrow> nat \<Rightarrow> nat option \<Rightarrow> error + nat option" where
  "walk_up h 0 c = Inr c"
| "walk_up h (Suc k) c =
     (case get_parent h c of Inl e \<Rightarrow> Inl e | Inr p \<Rightarrow> walk_up h k p)"

subsection \<open>adding_to_tree\<close>

text \<open>
  The three values \<^verbatim>\<open>tree, curr_node, curr_lvl\<close> that the function takes and returns,
  together with the store.
\<close>

record builder =
  nodes :: "node list"
  tree :: "nat option"
  curr_node :: "nat option"
  curr_lvl :: int

definition adding_to_tree :: "builder \<Rightarrow> int \<Rightarrow> string \<Rightarrow> error + builder" where
  "adding_to_tree st index function =
     (if index = 0 then
        (if tree st = None then
           (let (h, n) = Node (nodes st) function None
            in Inr \<lparr>nodes = h, tree = Some n, curr_node = Some n, curr_lvl = 0\<rparr>)
         else Inr st)
      else if index = curr_lvl st + 1 then
        (let (h, n) = Node (nodes st) function (curr_node st)
         in Inr (st\<lparr>nodes := h, curr_node := Some n, curr_lvl := curr_lvl st + 1\<rparr>))
      else if index < curr_lvl st then
        (case walk_up (nodes st) (nat (curr_lvl st - index)) (curr_node st) of
           Inl e \<Rightarrow> Inl e
         | Inr c \<Rightarrow> Inr (st\<lparr>curr_node := c, curr_lvl := index\<rparr>))
      else if index = curr_lvl st then
        (case get_parent (nodes st) (curr_node st) of
           Inl e \<Rightarrow> Inl e
         | Inr p \<Rightarrow>
             (let (h, n) = Node (nodes st) function p
              in Inr (st\<lparr>nodes := h, curr_node := Some n\<rparr>)))
      else
        (case curr_node st of
           None \<Rightarrow> Inl AttributeError
         | Some c \<Rightarrow>
             Inl (ValueError_add (curr_lvl st) function index (name (nodes st ! c)))))"

subsection \<open>generate_tree\<close>

text \<open>
  \<^verbatim>\<open>function.find(individual_filter) != -1\<close>: the filter occurs in the label. The
  empty filter occurs in every label.
\<close>

fun str_find :: "string \<Rightarrow> string \<Rightarrow> bool" where
  "str_find [] sub = (sub = [])"
| "str_find (c # cs) sub = (take (length sub) (c # cs) = sub \<or> str_find cs sub)"

text \<open>The inner loop over \<^verbatim>\<open>filters_list\<close>: true when it leaves with \<^verbatim>\<open>is_valid_node = False\<close>.\<close>

fun is_filtered :: "string list \<Rightarrow> string \<Rightarrow> bool" where
  "is_filtered [] function = False"
| "is_filtered (individual_filter # fs) function =
     (if str_find function individual_filter then True else is_filtered fs function)"

text \<open>The test \<^verbatim>\<open>next_index is not None and index > next_index\<close>.\<close>

fun is_child_of_filtered :: "int option \<Rightarrow> int \<Rightarrow> bool" where
  "is_child_of_filtered None index = False"
| "is_child_of_filtered (Some n) index = (index > n)"

text \<open>
  One turn of the loop over \<^verbatim>\<open>data\<close>. The loop carries the builder and \<^verbatim>\<open>next_index\<close>;
  \<^verbatim>\<open>filters_list\<close> is \<open>None\<close> for the full tree.
\<close>

definition generate_tree_step ::
  "string list option \<Rightarrow> builder \<times> int option \<Rightarrow> int \<times> string \<Rightarrow> error + builder \<times> int option" where
  "generate_tree_step filters_list s entry =
     (let st = fst s; next_index = snd s; index = fst entry; function = snd entry in
      case filters_list of
        None \<Rightarrow>
          (case adding_to_tree st index function of
             Inl e \<Rightarrow> Inl e
           | Inr st' \<Rightarrow> Inr (st', next_index))
      | Some fl \<Rightarrow>
          if is_child_of_filtered next_index index then Inr (st, next_index)
          else if is_filtered fl function then Inr (st, Some index)
          else
            (case adding_to_tree st index function of
               Inl e \<Rightarrow> Inl e
             | Inr st' \<Rightarrow> Inr (st', None)))"

fun generate_tree_loop ::
  "string list option \<Rightarrow> builder \<times> int option \<Rightarrow> (int \<times> string) list \<Rightarrow> error + builder \<times> int option" where
  "generate_tree_loop filters_list s [] = Inr s"
| "generate_tree_loop filters_list s (entry # data) =
     (case generate_tree_step filters_list s entry of
        Inl e \<Rightarrow> Inl e
      | Inr s' \<Rightarrow> generate_tree_loop filters_list s' data)"

text \<open>\<^verbatim>\<open>tree = None; curr_node = None; curr_lvl = 0; next_index = None\<close>, no node allocated.\<close>

definition init :: "builder \<times> int option" where
  "init = (\<lparr>nodes = [], tree = None, curr_node = None, curr_lvl = 0\<rparr>, None)"

text \<open>
  The function returns \<^verbatim>\<open>tree\<close>: a reference (or \<^verbatim>\<open>None\<close>), returned here with the store
  it points into.
\<close>

definition generate_tree ::
  "(int \<times> string) list \<Rightarrow> string list option \<Rightarrow> error + node list \<times> nat option" where
  "generate_tree data filters_list =
     (case generate_tree_loop filters_list init data of
        Inl e \<Rightarrow> Inl e
      | Inr s \<Rightarrow> Inr (nodes (fst s), tree (fst s)))"

subsection \<open>Reading a tree out of the store\<close>

text \<open>
  The tree below a node, as a value. A node is allocated after its parent, so the
  children of cell \<open>i\<close> are looked for among the cells after \<open>i\<close>
  (\<open>parent_before\<close> below holds of every store the builder makes).
\<close>

datatype rtree = RNode string "rtree list"

definition children :: "node list \<Rightarrow> nat \<Rightarrow> nat list" where
  "children h i = filter (\<lambda>j. parent (h ! j) = Some i) [Suc i ..< length h]"

function subtree :: "node list \<Rightarrow> nat \<Rightarrow> rtree" where
  "subtree h i = RNode (name (h ! i)) (map (subtree h) (children h i))"
  by pat_completeness auto
termination
  by (relation "measure (\<lambda>(h, i). length h - i)") (auto simp: children_def)

function pre_ids :: "node list \<Rightarrow> nat \<Rightarrow> nat list" where
  "pre_ids h i = i # concat (map (pre_ids h) (children h i))"
  by pat_completeness auto
termination
  by (relation "measure (\<lambda>(h, i). length h - i)") (auto simp: children_def)

declare subtree.simps [simp del]
declare pre_ids.simps [simp del]

text \<open>The labels of the tree below a node in pre-order.\<close>

definition preorder :: "node list \<Rightarrow> nat \<Rightarrow> string list" where
  "preorder h i = map (\<lambda>j. name (h ! j)) (pre_ids h i)"

text \<open>The tree a run returns, when it returns one.\<close>

fun tree_of :: "error + node list \<times> nat option \<Rightarrow> rtree option" where
  "tree_of (Inr (h, Some r)) = Some (subtree h r)"
| "tree_of _ = None"

fun labels_of :: "error + node list \<times> nat option \<Rightarrow> string list option" where
  "labels_of (Inr (h, Some r)) = Some (preorder h r)"
| "labels_of _ = None"

text \<open>The labels of a tree value in pre-order: a node before its children, left to right.\<close>

fun rtree_labels :: "rtree \<Rightarrow> string list" where
  "rtree_labels (RNode l ts) = l # concat (map rtree_labels ts)"

subsection \<open>Strings as Python sees them\<close>

text \<open>
  The characters \<^verbatim>\<open>str.split()\<close> and \<^verbatim>\<open>int()\<close> treat as whitespace, among the code
  points below 256: tab, line feed, vertical tab, form feed, carriage return, the four
  separators 28 to 31, space, next line (133) and no-break space (160).
\<close>

definition is_space :: "char \<Rightarrow> bool" where
  "is_space c = ((of_char c :: nat) \<in> set [9, 10, 11, 12, 13, 28, 29, 30, 31, 32, 133, 160])"

text \<open>
  \<^verbatim>\<open>line.split()\<close>: the maximal runs of characters that are not whitespace. \<open>cur\<close> is
  the run being read.
\<close>

fun split_acc :: "string \<Rightarrow> string \<Rightarrow> string list" where
  "split_acc cur [] = (if cur = [] then [] else [cur])"
| "split_acc cur (c # cs) =
     (if is_space c then (if cur = [] then split_acc [] cs else cur # split_acc [] cs)
      else split_acc (cur @ [c]) cs)"

definition str_split :: "string \<Rightarrow> string list" where
  "str_split s = split_acc [] s"

text \<open>\<^verbatim>\<open>s.strip()\<close>, which \<^verbatim>\<open>int()\<close> applies to its argument.\<close>

definition str_strip :: "string \<Rightarrow> string" where
  "str_strip s = rev (dropWhile is_space (rev (dropWhile is_space s)))"

definition is_digit :: "char \<Rightarrow> bool" where
  "is_digit c = (48 \<le> (of_char c :: nat) \<and> (of_char c :: nat) \<le> 57)"

definition digit_val :: "char \<Rightarrow> nat" where
  "digit_val c = of_char c - 48"

definition digit_char :: "nat \<Rightarrow> char" where
  "digit_char n = char_of (48 + n)"

text \<open>
  The digits of a decimal literal after its first digit: digits, each of which may be
  preceded by one underscore.
\<close>

fun int_digits :: "nat \<Rightarrow> string \<Rightarrow> nat option" where
  "int_digits acc [] = Some acc"
| "int_digits acc (c # cs) =
     (if is_digit c then int_digits (10 * acc + digit_val c) cs
      else if c = CHR ''_'' then
        (case cs of
           [] \<Rightarrow> None
         | d # ds \<Rightarrow> if is_digit d then int_digits (10 * acc + digit_val d) ds else None)
      else None)"

definition int_unsigned :: "string \<Rightarrow> nat option" where
  "int_unsigned s =
     (case s of [] \<Rightarrow> None | c # cs \<Rightarrow> if is_digit c then int_digits (digit_val c) cs else None)"

text \<open>\<^verbatim>\<open>int(s)\<close> in base 10: whitespace around, an optional sign, a decimal literal.\<close>

definition py_int :: "string \<Rightarrow> error + int" where
  "py_int s =
     (case str_strip s of
        [] \<Rightarrow> Inl (ValueError_int s)
      | c # cs \<Rightarrow>
          if c = CHR ''-'' then
            (case int_unsigned cs of None \<Rightarrow> Inl (ValueError_int s) | Some n \<Rightarrow> Inr (- int n))
          else if c = CHR ''+'' then
            (case int_unsigned cs of None \<Rightarrow> Inl (ValueError_int s) | Some n \<Rightarrow> Inr (int n))
          else
            (case int_unsigned (c # cs) of None \<Rightarrow> Inl (ValueError_int s) | Some n \<Rightarrow> Inr (int n)))"

text \<open>\<^verbatim>\<open>str(filter_level)\<close> for a filter level that is not negative.\<close>

fun str_nat :: "nat \<Rightarrow> string" where
  "str_nat n = (if n < 10 then [digit_char n] else str_nat (n div 10) @ [digit_char (n mod 10)])"

declare str_nat.simps [simp del]

subsection \<open>The regular expression of parse_input_file\<close>

text \<open>
  The pattern is \<^verbatim>\<open>"\[  [0-" + str(filter_level) + "].*$"\<close>. Its character class holds
  the range from \<^verbatim>\<open>0\<close> to the first digit of the filter level, and the further
  digits of the filter level, if any.
\<close>

definition depth_class :: "nat \<Rightarrow> char \<Rightarrow> bool" where
  "depth_class filter_level c =
     (case str_nat filter_level of
        [] \<Rightarrow> False
      | hi # others \<Rightarrow>
          (48 \<le> (of_char c :: nat) \<and> (of_char c :: nat) \<le> of_char hi) \<or> c \<in> set others)"

text \<open>
  \<^verbatim>\<open>.*$\<close>: any characters but line feeds, up to the end of the string or to a line
  feed that ends the string.
\<close>

definition dot_star_end :: "string \<Rightarrow> bool" where
  "dot_star_end s =
     (let r = dropWhile (\<lambda>c. c \<noteq> CHR 0x0A) s in r = [] \<or> r = [CHR 0x0A])"

text \<open>The pattern matches at the start of the string.\<close>

fun match_here :: "nat \<Rightarrow> string \<Rightarrow> bool" where
  "match_here filter_level (a # b # c # d # rest) =
     (a = CHR ''['' \<and> b = CHR '' '' \<and> c = CHR '' '' \<and> depth_class filter_level d
      \<and> dot_star_end rest)"
| "match_here filter_level _ = False"

text \<open>\<^verbatim>\<open>re.search(pattern, line)\<close> finds a match: the pattern matches at some position.\<close>

fun re_search :: "nat \<Rightarrow> string \<Rightarrow> bool" where
  "re_search filter_level [] = False"
| "re_search filter_level (c # cs) =
     (match_here filter_level (c # cs) \<or> re_search filter_level cs)"

subsection \<open>adding_to_module_list and parse_input_file\<close>

text \<open>\<^verbatim>\<open>s.split("!")[0]\<close>: the text before the first \<^verbatim>\<open>!\<close>, all of it when there is none.\<close>

definition module_of :: "string \<Rightarrow> string" where
  "module_of s = takeWhile (\<lambda>c. c \<noteq> CHR ''!'') s"

text \<open>The global \<^verbatim>\<open>MODULES_LIST\<close> is passed in and returned.\<close>

definition adding_to_module_list :: "string list \<Rightarrow> string \<Rightarrow> string list" where
  "adding_to_module_list MODULES_LIST function_module =
     (let module_node = module_of function_module in
      if module_node \<noteq> [] then
        (if module_node \<notin> set MODULES_LIST then MODULES_LIST @ [module_node]
         else MODULES_LIST)
      else MODULES_LIST)"

text \<open>
  One turn of the loop over the lines: \<open>s\<close> is \<^verbatim>\<open>parsed_lines\<close> and
  \<^verbatim>\<open>MODULES_LIST\<close>. \<^verbatim>\<open>words[3]\<close> is read and converted before \<^verbatim>\<open>words[4]\<close> is read.
\<close>

definition parse_step ::
  "nat \<Rightarrow> (int \<times> string) list \<times> string list \<Rightarrow> string \<Rightarrow> error + (int \<times> string) list \<times> string list" where
  "parse_step filter_level s line =
     (if re_search filter_level line then
        (let words = str_split line in
         if length words \<le> 3 then Inl IndexError
         else
           (case py_int (filter (\<lambda>c. c \<noteq> CHR '']'') (words ! 3)) of
              Inl e \<Rightarrow> Inl e
            | Inr index \<Rightarrow>
                if length words \<le> 4 then Inl IndexError
                else
                  (let function = words ! 4 in
                   Inr (fst s @ [(index, function)], adding_to_module_list (snd s) function))))
      else Inr s)"

fun parse_loop ::
  "nat \<Rightarrow> (int \<times> string) list \<times> string list \<Rightarrow> string list \<Rightarrow> error + (int \<times> string) list \<times> string list" where
  "parse_loop filter_level s [] = Inr s"
| "parse_loop filter_level s (line # data) =
     (case parse_step filter_level s line of
        Inl e \<Rightarrow> Inl e
      | Inr s' \<Rightarrow> parse_loop filter_level s' data)"

text \<open>
  \<open>data\<close> is what \<^verbatim>\<open>readlines()\<close> returned, \<open>MODULES_LIST\<close> the global list at the
  call. The result is \<^verbatim>\<open>parsed_lines\<close> and the global list after the call.
\<close>

definition parse_input_file ::
  "string list \<Rightarrow> nat \<Rightarrow> string list \<Rightarrow> error + (int \<times> string) list \<times> string list" where
  "parse_input_file data filter_level MODULES_LIST =
     (case parse_loop filter_level ([], MODULES_LIST) data of
        Inl e \<Rightarrow> Inl e
      | Inr s \<Rightarrow> if fst s = [] then Inl ValueError_parse else Inr s)"

subsection \<open>determine_node_att\<close>

definition colors :: "string list" where
  "colors = [''lightblue'', ''thistle'', ''wheat'', ''darkseagreen'', ''darksalmon'',
     ''papayawhip'', ''rosybrown'', ''lightcoral'', ''tan'', ''cadetblue'', ''plum'']"

text \<open>\<^verbatim>\<open>xs.index(x)\<close>: the first position of \<open>x\<close>, counted from \<open>k\<close>.\<close>

fun list_index :: "nat \<Rightarrow> string list \<Rightarrow> string \<Rightarrow> nat option" where
  "list_index k [] x = None"
| "list_index k (y # ys) x = (if y = x then Some k else list_index (Suc k) ys x)"

text \<open>The loop over \<^verbatim>\<open>MODULES_LIST\<close>; \<open>rest\<close> is the part of the list still to visit.\<close>

fun att_loop :: "string list \<Rightarrow> string list \<Rightarrow> string \<Rightarrow> error + string" where
  "att_loop MODULES_LIST [] module_node = Inl (ValueError_att module_node)"
| "att_loop MODULES_LIST (module # rest) module_node =
     (if module_node = module then
        (case list_index 0 MODULES_LIST module_node of
           None \<Rightarrow> Inl (ValueError_index module_node)
         | Some index \<Rightarrow>
             if index \<ge> length colors then Inr ''shape=box, style=filled, fillcolor = grey''
             else Inr (''shape=box, style=filled, fillcolor = '' @ colors ! index))
      else att_loop MODULES_LIST rest module_node)"

definition determine_node_att :: "string list \<Rightarrow> node \<Rightarrow> error + string" where
  "determine_node_att MODULES_LIST nd =
     att_loop MODULES_LIST MODULES_LIST (module_of (name nd))"

subsection \<open>The lines of a wt trace\<close>

text \<open>
  The input the parser is written for. WinDbg's \<^verbatim>\<open>wt\<close> prints one line per call: two
  counters, the depth between brackets, right-aligned in a field of width three, and
  the label, indented. A depth below 10 therefore follows the bracket after two
  spaces. \<open>wt_line\<close> is the text of such a line; the fields not named after a column
  are numbers of spaces.
\<close>

record wt_record =
  wt_lead :: nat
  wt_count1 :: string
  wt_gap1 :: nat
  wt_count2 :: string
  wt_gap2 :: nat
  wt_depth :: nat
  wt_indent :: nat
  wt_label :: string
  wt_newline :: bool

definition wt_line :: "wt_record \<Rightarrow> string" where
  "wt_line r =
     replicate (wt_lead r) (CHR '' '') @ wt_count1 r
     @ replicate (Suc (wt_gap1 r)) (CHR '' '') @ wt_count2 r
     @ replicate (Suc (wt_gap2 r)) (CHR '' '') @ ''[  '' @ [digit_char (wt_depth r)] @ '']''
     @ replicate (Suc (wt_indent r)) (CHR '' '') @ wt_label r
     @ (if wt_newline r then [CHR 0x0A] else [])"

text \<open>A token: not empty, no whitespace in it.\<close>

definition is_token :: "string \<Rightarrow> bool" where
  "is_token t = (t \<noteq> [] \<and> list_all (\<lambda>c. \<not> is_space c) t)"

text \<open>
  The counters and the label are tokens, no bracket opens in a counter, and the depth
  is one digit.
\<close>

definition wt_wellformed :: "wt_record \<Rightarrow> bool" where
  "wt_wellformed r =
     (is_token (wt_count1 r) \<and> CHR ''['' \<notin> set (wt_count1 r)
      \<and> is_token (wt_count2 r) \<and> CHR ''['' \<notin> set (wt_count2 r)
      \<and> wt_depth r \<le> 9 \<and> is_token (wt_label r))"

text \<open>The entries of the records whose depth is at most \<open>D\<close>, in order.\<close>

definition wt_entries :: "nat \<Rightarrow> wt_record list \<Rightarrow> (int \<times> string) list" where
  "wt_entries D recs =
     map (\<lambda>r. (int (wt_depth r), wt_label r)) (filter (\<lambda>r. wt_depth r \<le> D) recs)"

text \<open>
  A marker: an opening bracket, two spaces and a digit, somewhere in the line. A line
  without a marker is matched by the pattern for no filter level up to 9.
\<close>

fun has_marker :: "string \<Rightarrow> bool" where
  "has_marker (a # b # c # d # rest) =
     ((a = CHR ''['' \<and> b = CHR '' '' \<and> c = CHR '' '' \<and> is_digit d)
      \<or> has_marker (b # c # d # rest))"
| "has_marker _ = False"

text \<open>
  The lines of a trace file: the records of calls, and all the other lines (the header,
  blank lines, the summary, records of a depth of 10 or more, which \<^verbatim>\<open>wt\<close> prints with
  fewer than two spaces after the bracket).
\<close>

datatype trace_line = Record wt_record | Other string

fun line_text :: "trace_line \<Rightarrow> string" where
  "line_text (Record r) = wt_line r"
| "line_text (Other s) = s"

fun line_ok :: "trace_line \<Rightarrow> bool" where
  "line_ok (Record r) = wt_wellformed r"
| "line_ok (Other s) = (\<not> has_marker s)"

fun records_of :: "trace_line list \<Rightarrow> wt_record list" where
  "records_of [] = []"
| "records_of (Record r # ls) = r # records_of ls"
| "records_of (Other s # ls) = records_of ls"

subsection \<open>Invariants of the builder\<close>

text \<open>Every node was allocated after its parent.\<close>

definition parent_before :: "node list \<Rightarrow> bool" where
  "parent_before h =
     list_all (\<lambda>j. case parent (h ! j) of None \<Rightarrow> True | Some p \<Rightarrow> p < j) [0 ..< length h]"

text \<open>
  Once the root exists: \<^verbatim>\<open>curr_node\<close> is a node of the tree below the root, and
  \<^verbatim>\<open>curr_lvl\<close> is its depth, the number of parent links from it to the root.
\<close>

definition rooted :: "builder \<Rightarrow> bool" where
  "rooted st =
     (case tree st of
        None \<Rightarrow> False
      | Some r \<Rightarrow>
          (case curr_node st of
             None \<Rightarrow> False
           | Some c \<Rightarrow>
               r < length (nodes st) \<and> c < length (nodes st) \<and> 0 \<le> curr_lvl st
               \<and> walk_up (nodes st) (nat (curr_lvl st)) (Some c) = Inr (Some r)
               \<and> parent (nodes st ! r) = None))"

definition builder_inv :: "builder \<Rightarrow> bool" where
  "builder_inv st =
     (parent_before (nodes st)
      \<and> (case curr_node st of None \<Rightarrow> True | Some c \<Rightarrow> c < length (nodes st))
      \<and> (tree st = None \<or> rooted st))"

text \<open>The depths of the entries are not negative (the data model of an entry).\<close>

definition depths_ok :: "(int \<times> string) list \<Rightarrow> bool" where
  "depths_ok data = list_all (\<lambda>entry. 0 \<le> fst entry) data"

text \<open>
  What the parser keeps true of \<^verbatim>\<open>parsed_lines\<close> and \<^verbatim>\<open>MODULES_LIST\<close>: the module of
  every parsed label is in the list, unless it is empty.
\<close>

definition modules_recorded :: "(int \<times> string) list \<times> string list \<Rightarrow> bool" where
  "modules_recorded s =
     (\<forall>e \<in> set (fst s). module_of (snd e) \<noteq> [] \<longrightarrow> module_of (snd e) \<in> set (snd s))"

text \<open>
  The subtree of the current node, and of each of its ancestors, is the run of cells
  from that node to the end of the store: the next node is attached at the right end
  of the tree, so the nodes are allocated in pre-order.
\<close>

definition spine_ok :: "builder \<Rightarrow> bool" where
  "spine_ok st =
     (\<forall>k a. walk_up (nodes st) k (curr_node st) = Inr (Some a)
        \<longrightarrow> pre_ids (nodes st) a = [a ..< length (nodes st)])"

subsection \<open>Sequences of entries\<close>

text \<open>
  Adjacency as the transition table words it: every entry is one level below the entry
  before it (descent) or at its level (sibling). \<open>lvl\<close> is the depth of the entry
  before.
\<close>

fun adjacent :: "int \<Rightarrow> (int \<times> string) list \<Rightarrow> bool" where
  "adjacent lvl [] = True"
| "adjacent lvl (entry # data) =
     ((fst entry = lvl + 1 \<or> fst entry = lvl) \<and> adjacent (fst entry) data)"

definition valid_sequence :: "(int \<times> string) list \<Rightarrow> bool" where
  "valid_sequence data =
     (case data of [] \<Rightarrow> False | entry # rest \<Rightarrow> fst entry = 0 \<and> adjacent 0 rest)"

text \<open>No entry after the first is at depth 0.\<close>

definition deeper_after_first :: "(int \<times> string) list \<Rightarrow> bool" where
  "deeper_after_first data = list_all (\<lambda>entry. 1 \<le> fst entry) (tl data)"

section \<open>Lemmas about the store and the builder\<close>

lemma parent_beforeD:
  "parent_before h \<Longrightarrow> j < length h \<Longrightarrow> parent (h ! j) = Some p \<Longrightarrow> p < j"
  by (auto simp: parent_before_def list_all_iff split: option.splits)

lemma parent_before_snoc:
  "parent_before h \<Longrightarrow> (case p of None \<Rightarrow> True | Some q \<Rightarrow> q < length h) \<Longrightarrow>
   parent_before (h @ [\<lparr>name = nm, parent = p\<rparr>])"
  by (auto simp: parent_before_def list_all_iff nth_append split: option.splits)

lemma walk_up_None: "walk_up h k None = (if k = 0 then Inr None else Inl AttributeError)"
  by (cases k) auto

lemma walk_up_append:
  "parent_before h \<Longrightarrow> c < length h \<Longrightarrow> walk_up (h @ xs) k (Some c) = walk_up h k (Some c)"
proof (induction k arbitrary: c)
  case 0
  then show ?case by simp
next
  case (Suc k)
  show ?case
  proof (cases "parent (h ! c)")
    case None
    with Suc.prems show ?thesis by (simp add: nth_append walk_up_None)
  next
    case (Some p)
    with Suc.prems have "p < c" by (auto dest: parent_beforeD)
    with Suc Some show ?thesis by (simp add: nth_append)
  qed
qed

lemma walk_up_le:
  "parent_before h \<Longrightarrow> c < length h \<Longrightarrow> walk_up h k (Some c) = Inr (Some a) \<Longrightarrow> a \<le> c"
proof (induction k arbitrary: c)
  case 0
  then show ?case by simp
next
  case (Suc k)
  show ?case
  proof (cases "parent (h ! c)")
    case None
    with Suc.prems show ?thesis by (simp add: walk_up_None split: if_splits)
  next
    case (Some p)
    with Suc.prems have "p < c" by (auto dest: parent_beforeD)
    moreover from Suc.prems Some have "walk_up h k (Some p) = Inr (Some a)" by simp
    ultimately have "a \<le> p" using Suc.IH[of p] Suc.prems by simp
    with \<open>p < c\<close> show ?thesis by simp
  qed
qed

lemma walk_up_add:
  "walk_up h (k1 + k2) c =
     (case walk_up h k1 c of Inl e \<Rightarrow> Inl e | Inr x \<Rightarrow> walk_up h k2 x)"
  by (induction k1 arbitrary: c) (auto split: sum.splits)

lemma rooted_ascent:
  assumes pb: "parent_before (nodes st)" and r: "rooted st"
    and i: "0 < index" "index < curr_lvl st"
  shows "\<exists>a. walk_up (nodes st) (nat (curr_lvl st - index)) (curr_node st) = Inr (Some a)
     \<and> a < length (nodes st)
     \<and> walk_up (nodes st) (nat index) (Some a) = Inr (tree st)"
proof -
  from r obtain rt c where rc: "tree st = Some rt" "curr_node st = Some c"
    "c < length (nodes st)"
    "walk_up (nodes st) (nat (curr_lvl st)) (Some c) = Inr (Some rt)"
    by (auto simp: rooted_def split: option.splits)
  from i have "nat (curr_lvl st) = nat (curr_lvl st - index) + nat index" by simp
  with rc(4) have w: "(case walk_up (nodes st) (nat (curr_lvl st - index)) (Some c) of
      Inl e \<Rightarrow> Inl e | Inr x \<Rightarrow> walk_up (nodes st) (nat index) x) = Inr (Some rt)"
    by (simp add: walk_up_add)
  then obtain x where x: "walk_up (nodes st) (nat (curr_lvl st - index)) (Some c) = Inr x"
    "walk_up (nodes st) (nat index) x = Inr (Some rt)"
    by (auto split: sum.splits)
  from x(2) i obtain a where a: "x = Some a"
    by (cases x) (auto simp: walk_up_None split: if_splits)
  with x pb rc(3) have "a \<le> c" by (auto dest: walk_up_le)
  with a x rc show ?thesis by auto
qed

lemma rooted_parent:
  assumes r: "rooted st" and l: "0 < curr_lvl st"
  shows "\<exists>c p. curr_node st = Some c \<and> parent (nodes st ! c) = Some p
     \<and> walk_up (nodes st) (nat (curr_lvl st - 1)) (Some p) = Inr (tree st)"
proof -
  from r obtain rt c where rc: "tree st = Some rt" "curr_node st = Some c"
    "walk_up (nodes st) (nat (curr_lvl st)) (Some c) = Inr (Some rt)"
    by (auto simp: rooted_def split: option.splits)
  from l have n: "nat (curr_lvl st) = Suc (nat (curr_lvl st - 1))" by simp
  from rc(3) have w: "walk_up (nodes st) (nat (curr_lvl st - 1)) (parent (nodes st ! c)) = Inr (Some rt)"
    unfolding n by simp
  then obtain p where "parent (nodes st ! c) = Some p"
    by (cases "parent (nodes st ! c)") (auto simp: walk_up_None split: if_splits)
  with w rc show ?thesis by auto
qed

lemma adding_to_tree_inv:
  assumes inv: "builder_inv st" and i: "0 \<le> index"
    and a: "adding_to_tree st index function = Inr st'"
  shows "builder_inv st'"
proof -
  from inv have pb: "parent_before (nodes st)"
    and cv: "\<And>c. curr_node st = Some c \<Longrightarrow> c < length (nodes st)"
    and tr: "tree st = None \<or> rooted st"
    by (auto simp: builder_inv_def)
  consider (zero) "index = 0" | (child) "index \<noteq> 0" "index = curr_lvl st + 1"
    | (up) "index \<noteq> 0" "index \<noteq> curr_lvl st + 1" "index < curr_lvl st"
    | (sib) "index \<noteq> 0" "index = curr_lvl st"
    | (bad) "index \<noteq> 0" "index \<noteq> curr_lvl st + 1" "\<not> index < curr_lvl st" "index \<noteq> curr_lvl st"
    by linarith
  then show ?thesis
  proof cases
    case zero
    show ?thesis
    proof (cases "tree st")
      case None
      with zero a have "st' = \<lparr>nodes = nodes st @ [\<lparr>name = function, parent = None\<rparr>],
          tree = Some (length (nodes st)), curr_node = Some (length (nodes st)), curr_lvl = 0\<rparr>"
        by (auto simp: adding_to_tree_def Node_def)
      with pb show ?thesis
        by (simp add: builder_inv_def rooted_def parent_before_snoc)
    next
      case (Some r)
      with zero a inv show ?thesis by (simp add: adding_to_tree_def)
    qed
  next
    case child
    with a have st': "st' = st\<lparr>nodes := nodes st @ [\<lparr>name = function, parent = curr_node st\<rparr>],
        curr_node := Some (length (nodes st)), curr_lvl := curr_lvl st + 1\<rparr>"
      by (auto simp: adding_to_tree_def Node_def)
    have pb': "parent_before (nodes st')"
      unfolding st' using pb cv by (auto intro!: parent_before_snoc split: option.splits)
    show ?thesis
    proof (cases "tree st")
      case None
      with pb' show ?thesis by (simp add: builder_inv_def st')
    next
      case (Some r)
      with tr have ro: "rooted st" by simp
      then obtain c where c: "curr_node st = Some c" "c < length (nodes st)" "r < length (nodes st)"
        "0 \<le> curr_lvl st" "walk_up (nodes st) (nat (curr_lvl st)) (Some c) = Inr (Some r)"
        "parent (nodes st ! r) = None"
        using Some by (auto simp: rooted_def split: option.splits)
      from c(4) have n: "nat (curr_lvl st + 1) = Suc (nat (curr_lvl st))" by simp
      have "rooted st'"
        unfolding rooted_def st' using Some c pb
        by (simp add: n nth_append walk_up_append)
      with pb' show ?thesis by (simp add: builder_inv_def st')
    qed
  next
    case up
    with i have pos: "0 < index" by simp
    show ?thesis
    proof (cases "tree st")
      case None
      from a up obtain c' where w: "walk_up (nodes st) (nat (curr_lvl st - index)) (curr_node st) = Inr c'"
        and st': "st' = st\<lparr>curr_node := c', curr_lvl := index\<rparr>"
        by (auto simp: adding_to_tree_def split: sum.splits)
      have "case c' of None \<Rightarrow> True | Some a \<Rightarrow> a < length (nodes st)"
      proof (cases c')
        case (Some a)
        from w Some obtain c where c: "curr_node st = Some c"
          by (cases "curr_node st") (auto simp: walk_up_None split: if_splits)
        with w Some pb cv[OF c] have "a \<le> c" by (auto dest: walk_up_le)
        with cv[OF c] Some show ?thesis by simp
      qed simp
      with None pb show ?thesis by (auto simp: builder_inv_def st' split: option.splits)
    next
      case (Some r)
      with tr have ro: "rooted st" by simp
      from rooted_ascent[OF pb ro pos up(3)] obtain x where
        x: "walk_up (nodes st) (nat (curr_lvl st - index)) (curr_node st) = Inr (Some x)"
        "x < length (nodes st)" "walk_up (nodes st) (nat index) (Some x) = Inr (tree st)"
        by blast
      with a up have st': "st' = st\<lparr>curr_node := Some x, curr_lvl := index\<rparr>"
        by (auto simp: adding_to_tree_def)
      from ro Some x pos have "rooted st'"
        by (auto simp: rooted_def st' split: option.splits)
      with pb x(2) show ?thesis by (simp add: builder_inv_def st')
    qed
  next
    case sib
    with i have pos: "0 < curr_lvl st" by simp
    from a sib obtain c where c: "curr_node st = Some c"
      and st': "st' = st\<lparr>nodes := nodes st @ [\<lparr>name = function, parent = parent (nodes st ! c)\<rparr>],
         curr_node := Some (length (nodes st))\<rparr>"
      by (cases "curr_node st") (auto simp: adding_to_tree_def Node_def)
    have pl: "case parent (nodes st ! c) of None \<Rightarrow> True | Some q \<Rightarrow> q < length (nodes st)"
      using parent_beforeD[OF pb cv[OF c]] cv[OF c] by (fastforce split: option.splits)
    have pb': "parent_before (nodes st')"
      unfolding st' using pb pl by (auto intro!: parent_before_snoc)
    show ?thesis
    proof (cases "tree st")
      case None
      with pb' show ?thesis by (simp add: builder_inv_def st')
    next
      case (Some r)
      with tr have ro: "rooted st" by simp
      from rooted_parent[OF ro pos] c obtain p where p: "parent (nodes st ! c) = Some p"
        "walk_up (nodes st) (nat (curr_lvl st - 1)) (Some p) = Inr (tree st)"
        by auto
      from p(1) have pc: "p < length (nodes st)" using pl by simp
      from pos have n: "nat (curr_lvl st) = Suc (nat (curr_lvl st - 1))" by simp
      from ro Some have r: "r < length (nodes st)" "parent (nodes st ! r) = None" "0 \<le> curr_lvl st"
        by (auto simp: rooted_def split: option.splits)
      have "rooted st'"
        unfolding rooted_def st' using Some p pc pb r
        by (simp add: n nth_append walk_up_append)
      with pb' show ?thesis by (simp add: builder_inv_def st')
    qed
  next
    case bad
    with a show ?thesis by (auto simp: adding_to_tree_def split: option.splits)
  qed
qed

lemma generate_tree_step_inv:
  assumes "builder_inv (fst s)" "0 \<le> fst entry"
    and "generate_tree_step filters_list s entry = Inr s'"
  shows "builder_inv (fst s')"
  using assms
  by (auto simp: generate_tree_step_def Let_def
      split: option.splits sum.splits if_splits dest: adding_to_tree_inv)

lemma generate_tree_loop_inv:
  "builder_inv (fst s) \<Longrightarrow> depths_ok data \<Longrightarrow>
   generate_tree_loop filters_list s data = Inr s' \<Longrightarrow> builder_inv (fst s')"
proof (induction data arbitrary: s)
  case Nil
  then show ?case by simp
next
  case (Cons entry data)
  from Cons.prems(3) obtain s1 where s1: "generate_tree_step filters_list s entry = Inr s1"
    "generate_tree_loop filters_list s1 data = Inr s'"
    by (auto split: sum.splits)
  from Cons.prems have "0 \<le> fst entry" "depths_ok data" by (auto simp: depths_ok_def)
  with s1 Cons.prems(1) Cons.IH[of s1] show ?case
    by (auto dest: generate_tree_step_inv)
qed

lemma builder_inv_init: "builder_inv (fst init)"
  by (simp add: builder_inv_def init_def parent_before_def)

lemma reachable_inv:
  "depths_ok data \<Longrightarrow> generate_tree_loop filters_list init data = Inr s \<Longrightarrow> builder_inv (fst s)"
  using generate_tree_loop_inv[OF builder_inv_init] by blast

lemma generate_tree_loop_append:
  "generate_tree_loop filters_list s (xs @ ys) =
     (case generate_tree_loop filters_list s xs of
        Inl e \<Rightarrow> Inl e
      | Inr s' \<Rightarrow> generate_tree_loop filters_list s' ys)"
  by (induction xs arbitrary: s) (auto split: sum.splits)

lemma reachable_rooted:
  assumes "depths_ok data" "generate_tree_loop filters_list init data = Inr (st, next_index)"
    "tree st \<noteq> None"
  shows "parent_before (nodes st) \<and> rooted st"
  using reachable_inv[OF assms(1,2)] assms(3) by (simp add: builder_inv_def)

subsection \<open>Node names and recorded modules\<close>

lemma list_index_None: "(list_index k xs x = None) = (x \<notin> set xs)"
  by (induction xs arbitrary: k) auto

lemma att_loop_absent:
  "m \<notin> set rest \<Longrightarrow> att_loop ms rest m = Inl (ValueError_att m)"
  by (induction rest) auto

lemma att_loop_present:
  "m \<in> set rest \<Longrightarrow> m \<in> set ms \<Longrightarrow> \<exists>att. att_loop ms rest m = Inr att"
proof (induction rest)
  case Nil
  then show ?case by simp
next
  case (Cons a rest)
  from Cons.prems(2) obtain k where "list_index 0 ms m = Some k"
    using list_index_None[of 0 ms m] by (cases "list_index 0 ms m") auto
  with Cons show ?case by auto
qed

lemma determine_node_att_fails_iff:
  "(\<exists>e. determine_node_att ms nd = Inl e) = (module_of (name nd) \<notin> set ms)"
proof (cases "module_of (name nd) \<in> set ms")
  case True
  from att_loop_present[OF True True] show ?thesis
    using True by (auto simp: determine_node_att_def)
next
  case False
  from att_loop_absent[OF False] show ?thesis
    using False by (auto simp: determine_node_att_def)
qed

lemma adding_to_tree_names:
  "adding_to_tree st index function = Inr st' \<Longrightarrow> nd \<in> set (nodes st') \<Longrightarrow>
   name nd = function \<or> nd \<in> set (nodes st)"
  by (auto simp: adding_to_tree_def Node_def split: if_splits sum.splits option.splits)

lemma generate_tree_step_names:
  assumes "generate_tree_step filters_list s entry = Inr s'" "nd \<in> set (nodes (fst s'))"
  shows "name nd = snd entry \<or> nd \<in> set (nodes (fst s))"
proof (cases "fst s' = fst s")
  case True
  with assms(2) show ?thesis by simp
next
  case False
  with assms(1) have "adding_to_tree (fst s) (fst entry) (snd entry) = Inr (fst s')"
    by (auto simp: generate_tree_step_def Let_def split: option.splits sum.splits if_splits)
  from adding_to_tree_names[OF this assms(2)] show ?thesis .
qed

lemma generate_tree_loop_names:
  "generate_tree_loop filters_list s data = Inr s' \<Longrightarrow> nd \<in> set (nodes (fst s')) \<Longrightarrow>
   name nd \<in> snd ` set data \<or> nd \<in> set (nodes (fst s))"
proof (induction data arbitrary: s)
  case Nil
  then show ?case by simp
next
  case (Cons entry data)
  from Cons.prems(1) obtain s1 where s1: "generate_tree_step filters_list s entry = Inr s1"
    "generate_tree_loop filters_list s1 data = Inr s'"
    by (auto split: sum.splits)
  from Cons.IH[OF s1(2) Cons.prems(2)] show ?case
  proof
    assume "name nd \<in> snd ` set data"
    then show ?thesis by simp
  next
    assume "nd \<in> set (nodes (fst s1))"
    from generate_tree_step_names[OF s1(1) this] show ?thesis by auto
  qed
qed

lemma generate_tree_names:
  assumes "generate_tree data filters_list = Inr (h, t)" "nd \<in> set h"
  shows "name nd \<in> snd ` set data"
proof -
  from assms obtain s where s: "generate_tree_loop filters_list init data = Inr s" "h = nodes (fst s)"
    by (auto simp: generate_tree_def split: sum.splits)
  from generate_tree_loop_names[OF s(1)] s(2) assms(2) show ?thesis by (auto simp: init_def)
qed

lemma adding_to_module_list_set:
  "set (adding_to_module_list ms f) = (if module_of f = [] then set ms else insert (module_of f) (set ms))"
  by (auto simp: adding_to_module_list_def Let_def)

lemma parse_step_recorded:
  "parse_step D s line = Inr s' \<Longrightarrow> modules_recorded s \<Longrightarrow> modules_recorded s'"
  by (auto simp: parse_step_def Let_def modules_recorded_def adding_to_module_list_set
      split: if_splits sum.splits)

lemma parse_step_no_empty:
  "parse_step D s line = Inr s' \<Longrightarrow> [] \<notin> set (snd s) \<Longrightarrow> [] \<notin> set (snd s')"
  by (auto simp: parse_step_def Let_def adding_to_module_list_set
      split: if_splits sum.splits)

lemma parse_loop_recorded:
  "parse_loop D s data = Inr s' \<Longrightarrow> modules_recorded s \<Longrightarrow> modules_recorded s'"
proof (induction data arbitrary: s)
  case Nil
  then show ?case by simp
next
  case (Cons line data)
  from Cons.prems(1) obtain s1 where s1: "parse_step D s line = Inr s1"
    "parse_loop D s1 data = Inr s'"
    by (auto split: sum.splits)
  from parse_step_recorded[OF s1(1) Cons.prems(2)] Cons.IH[OF s1(2)] show ?case by simp
qed

lemma parse_loop_no_empty:
  "parse_loop D s data = Inr s' \<Longrightarrow> [] \<notin> set (snd s) \<Longrightarrow> [] \<notin> set (snd s')"
proof (induction data arbitrary: s)
  case Nil
  then show ?case by simp
next
  case (Cons line data)
  from Cons.prems(1) obtain s1 where s1: "parse_step D s line = Inr s1"
    "parse_loop D s1 data = Inr s'"
    by (auto split: sum.splits)
  from parse_step_no_empty[OF s1(1) Cons.prems(2)] Cons.IH[OF s1(2)] show ?case by simp
qed

subsection \<open>The parser on the lines of a wt trace\<close>

lemma is_space_sp: "is_space (CHR '' '')"
  by (simp add: is_space_def)

lemma split_acc_token:
  "list_all (\<lambda>c. \<not> is_space c) t \<Longrightarrow> split_acc cur (t @ rest) = split_acc (cur @ t) rest"
  by (induction t arbitrary: cur) auto

lemma split_acc_spaces:
  "split_acc [] (replicate n (CHR '' '') @ rest) = split_acc [] rest"
  by (induction n) (auto simp: is_space_sp)

lemma split_acc_space:
  "is_space c \<Longrightarrow>
   split_acc cur (c # rest) = (if cur = [] then split_acc [] rest else cur # split_acc [] rest)"
  by simp

lemma split_acc_char:
  "\<not> is_space c \<Longrightarrow> split_acc cur (c # cs) = split_acc (cur @ [c]) cs"
  by simp

lemma of_char_digit_char: "d \<le> 9 \<Longrightarrow> (of_char (digit_char d) :: nat) = 48 + d"
  by (simp add: digit_char_def)

lemma digit_char_neq:
  assumes "d \<le> 9" "(of_char c :: nat) < 48 \<or> 57 < (of_char c :: nat)"
  shows "digit_char d \<noteq> c"
proof
  assume "digit_char d = c"
  then have "(of_char (digit_char d) :: nat) = of_char c" by simp
  with assms show False by (simp add: of_char_digit_char)
qed

lemma digit_char_facts:
  assumes "d \<le> 9"
  shows "\<not> is_space (digit_char d)" "is_digit (digit_char d)" "digit_val (digit_char d) = d"
    "digit_char d \<noteq> CHR ''[''" "digit_char d \<noteq> CHR '']''" "digit_char d \<noteq> CHR ''-''"
    "digit_char d \<noteq> CHR ''+''" "digit_char d \<noteq> CHR '' ''" "digit_char d \<noteq> CHR 0x0A"
    "digit_char d \<noteq> CHR ''_''"
proof -
  show "\<not> is_space (digit_char d)" "is_digit (digit_char d)" "digit_val (digit_char d) = d"
    using assms by (auto simp: is_space_def is_digit_def digit_val_def of_char_digit_char)
  show "digit_char d \<noteq> CHR ''[''" "digit_char d \<noteq> CHR '']''" "digit_char d \<noteq> CHR ''-''"
    "digit_char d \<noteq> CHR ''+''" "digit_char d \<noteq> CHR '' ''" "digit_char d \<noteq> CHR 0x0A"
    "digit_char d \<noteq> CHR ''_''"
    by (rule digit_char_neq[OF assms], simp)+
qed

lemma py_int_digit: "d \<le> 9 \<Longrightarrow> py_int [digit_char d] = Inr (int d)"
  by (simp add: py_int_def str_strip_def int_unsigned_def digit_char_facts)

lemma str_split_wt_line:
  assumes "wt_wellformed r"
  shows "str_split (wt_line r)
    = [wt_count1 r, wt_count2 r, ''['', [digit_char (wt_depth r), CHR '']''], wt_label r]"
proof -
  from assms have t: "list_all (\<lambda>c. \<not> is_space c) (wt_count1 r)" "wt_count1 r \<noteq> []"
    "list_all (\<lambda>c. \<not> is_space c) (wt_count2 r)" "wt_count2 r \<noteq> []"
    "list_all (\<lambda>c. \<not> is_space c) (wt_label r)" "wt_label r \<noteq> []"
    and d: "\<not> is_space (digit_char (wt_depth r))"
    by (auto simp: wt_wellformed_def is_token_def digit_char_facts)
  have b: "\<not> is_space (CHR ''['')" "\<not> is_space (CHR '']'')" "is_space (CHR 0x0A)"
    by (simp_all add: is_space_def)
  show ?thesis
    unfolding str_split_def wt_line_def
    by (simp add: split_acc_token split_acc_spaces split_acc_space split_acc_char is_space_sp t d b
        del: split_acc.simps(2))
qed

lemma not_bracket_no_match: "c \<noteq> CHR ''['' \<Longrightarrow> \<not> match_here D (c # xs)"
  by (cases "(D, c # xs)" rule: match_here.cases) auto

lemma re_search_skip:
  "CHR ''['' \<notin> set pre \<Longrightarrow> re_search D (pre @ s) = re_search D s"
  by (induction pre) (auto simp: not_bracket_no_match)

lemma no_second_space_no_match: "xs = [] \<or> hd xs \<noteq> CHR '' '' \<Longrightarrow> \<not> match_here D (c # xs)"
  by (cases "(D, c # xs)" rule: match_here.cases) auto

lemma re_search_no_space:
  "CHR '' '' \<notin> set s \<Longrightarrow> \<not> re_search D s"
proof (induction s)
  case Nil
  then show ?case by simp
next
  case (Cons c s)
  then have "s = [] \<or> hd s \<noteq> CHR '' ''" by (cases s) auto
  with Cons show ?case by (simp add: no_second_space_no_match)
qed

lemma depth_class_digit:
  assumes "D \<le> 9" "d \<le> 9"
  shows "depth_class D (digit_char d) = (d \<le> D)"
proof -
  from assms(1) have "str_nat D = [digit_char D]" by (simp add: str_nat.simps)
  with assms show ?thesis by (simp add: depth_class_def of_char_digit_char)
qed

lemma dot_star_end_tail:
  "CHR 0x0A \<notin> set s \<Longrightarrow> dot_star_end (s @ (if nl then [CHR 0x0A] else []))"
  by (simp add: dot_star_end_def dropWhile_append3 dropWhile_append)

lemma token_chars:
  assumes "is_token t"
  shows "CHR '' '' \<notin> set t" "CHR 0x0A \<notin> set t"
proof -
  have "is_space (CHR '' '')" "is_space (CHR 0x0A)" by (simp_all add: is_space_def)
  with assms show "CHR '' '' \<notin> set t" "CHR 0x0A \<notin> set t"
    by (auto simp: is_token_def list_all_iff)
qed

lemma re_search_wt_line:
  assumes wf: "wt_wellformed r" and D: "D \<le> 9"
  shows "re_search D (wt_line r) = (wt_depth r \<le> D)"
proof -
  define pre where "pre = replicate (wt_lead r) (CHR '' '') @ wt_count1 r
     @ replicate (Suc (wt_gap1 r)) (CHR '' '') @ wt_count2 r
     @ replicate (Suc (wt_gap2 r)) (CHR '' '')"
  define mid where "mid = CHR '']'' # replicate (Suc (wt_indent r)) (CHR '' '')"
  define tail where "tail = wt_label r @ (if wt_newline r then [CHR 0x0A] else [])"
  define dc where "dc = digit_char (wt_depth r)"
  from wf have d: "wt_depth r \<le> 9" and lbl: "is_token (wt_label r)"
    and c: "CHR ''['' \<notin> set (wt_count1 r)" "CHR ''['' \<notin> set (wt_count2 r)"
    by (auto simp: wt_wellformed_def)
  have line: "wt_line r = pre @ CHR ''['' # CHR '' '' # CHR '' '' # dc # mid @ tail"
    by (simp add: wt_line_def pre_def mid_def tail_def dc_def)
  have pre: "CHR ''['' \<notin> set pre"
    using c by (auto simp: pre_def)
  have pre2: "CHR ''['' \<notin> set (CHR '' '' # CHR '' '' # dc # mid)"
    using digit_char_facts(4)[OF d] by (auto simp: mid_def dc_def)
  have tail: "CHR '' '' \<notin> set tail"
    using token_chars(1)[OF lbl] by (auto simp: tail_def)
  have "CHR 0x0A \<notin> set (CHR '']'' # replicate (Suc (wt_indent r)) (CHR '' '') @ wt_label r)"
    using token_chars(2)[OF lbl] by auto
  from dot_star_end_tail[OF this, of "wt_newline r"]
  have dse: "dot_star_end (mid @ tail)"
    by (simp add: mid_def tail_def)
  have "re_search D (CHR '' '' # CHR '' '' # dc # mid @ tail) = re_search D tail"
    using re_search_skip[OF pre2, of D tail] by simp
  with re_search_no_space[OF tail, of D]
  have rest: "\<not> re_search D (CHR '' '' # CHR '' '' # dc # mid @ tail)" by simp
  have "re_search D (wt_line r) = re_search D (CHR ''['' # CHR '' '' # CHR '' '' # dc # mid @ tail)"
    unfolding line by (rule re_search_skip[OF pre])
  also have "\<dots> = (match_here D (CHR ''['' # CHR '' '' # CHR '' '' # dc # mid @ tail)
      \<or> re_search D (CHR '' '' # CHR '' '' # dc # mid @ tail))"
    by (simp only: re_search.simps)
  also have "\<dots> = depth_class D dc"
    using rest dse by simp
  also have "\<dots> = (wt_depth r \<le> D)"
    unfolding dc_def by (rule depth_class_digit[OF D d])
  finally show ?thesis .
qed

lemma parse_step_wt_line:
  assumes wf: "wt_wellformed r" and D: "D \<le> 9"
  shows "parse_step D s (wt_line r) =
     Inr (if wt_depth r \<le> D
          then (fst s @ [(int (wt_depth r), wt_label r)], adding_to_module_list (snd s) (wt_label r))
          else s)"
proof -
  from wf have d: "wt_depth r \<le> 9" by (simp add: wt_wellformed_def)
  show ?thesis
    by (simp add: parse_step_def re_search_wt_line[OF wf D] str_split_wt_line[OF wf]
        py_int_digit[OF d] digit_char_facts(5)[OF d] Let_def)
qed

lemma has_marker_Cons: "has_marker cs \<Longrightarrow> has_marker (c # cs)"
  by (cases "cs" rule: has_marker.cases) auto

lemma depth_class_is_digit:
  assumes "D \<le> 9" "depth_class D c"
  shows "is_digit c"
proof -
  from assms(1) have "str_nat D = [digit_char D]" by (simp add: str_nat.simps)
  with assms show ?thesis by (simp add: depth_class_def is_digit_def of_char_digit_char)
qed

lemma match_here_marker: "D \<le> 9 \<Longrightarrow> match_here D s \<Longrightarrow> has_marker s"
  by (cases "(D, s)" rule: match_here.cases) (auto dest: depth_class_is_digit)

lemma re_search_marker: "D \<le> 9 \<Longrightarrow> re_search D s \<Longrightarrow> has_marker s"
  by (induction s) (auto dest: match_here_marker has_marker_Cons)

lemma parse_step_other:
  "D \<le> 9 \<Longrightarrow> \<not> has_marker line \<Longrightarrow> parse_step D s line = Inr s"
  by (auto simp: parse_step_def dest: re_search_marker)

lemma parse_loop_trace:
  assumes "list_all line_ok items" and D: "D \<le> 9"
  shows "parse_loop D s (map line_text items) =
     Inr (fst s @ wt_entries D (records_of items),
          foldl adding_to_module_list (snd s) (map snd (wt_entries D (records_of items))))"
  using assms(1)
proof (induction items arbitrary: s)
  case Nil
  then show ?case by (simp add: wt_entries_def)
next
  case (Cons item items)
  then have rest: "list_all line_ok items" by simp
  show ?case
  proof (cases item)
    case (Record r)
    with Cons.prems have wf: "wt_wellformed r" by simp
    show ?thesis
      by (simp add: Record parse_step_wt_line[OF wf D] Cons.IH[OF rest] wt_entries_def)
  next
    case (Other l)
    with Cons.prems have "\<not> has_marker l" by simp
    from parse_step_other[OF D this] show ?thesis
      by (simp add: Other Cons.IH[OF rest])
  qed
qed

lemma parser_three_spaces:
  assumes "D \<le> 9"
  shows "parse_input_file [''0:000> [   2] module!func''] D MODULES_LIST = Inl ValueError_parse"
proof -
  have "\<not> has_marker ''0:000> [   2] module!func''" by code_simp
  then have "list_all line_ok [Other ''0:000> [   2] module!func'']" by simp
  from parse_loop_trace[OF this assms, of "([], MODULES_LIST)"] show ?thesis
    by (simp add: parse_input_file_def wt_entries_def)
qed

subsection \<open>Nodes are allocated in pre-order\<close>

lemma children_snoc:
  "children (h @ [x]) a =
     children h a @ (if a < length h \<and> parent x = Some a then [length h] else [])"
proof (cases "a < length h")
  case True
  then have u: "[Suc a ..< length (h @ [x])] = [Suc a ..< length h] @ [length h]"
    by simp
  have "filter (\<lambda>j. parent ((h @ [x]) ! j) = Some a) [Suc a ..< length h]
      = filter (\<lambda>j. parent (h ! j) = Some a) [Suc a ..< length h]"
    by (rule filter_cong) (auto simp: nth_append)
  with True show ?thesis unfolding children_def u by simp
next
  case False
  then show ?thesis by (simp add: children_def)
qed

lemma children_mem: "c \<in> set (children h a) \<longleftrightarrow> a < c \<and> c < length h \<and> parent (h ! c) = Some a"
  by (auto simp: children_def)

lemma distinct_children: "distinct (children h a)"
  by (simp add: children_def)

lemma walk_up_Suc_end:
  "walk_up h (Suc k) c =
     (case walk_up h k c of Inl e \<Rightarrow> Inl e | Inr x \<Rightarrow> get_parent h x)"
  using walk_up_add[of h k 1 c] by (auto split: sum.splits)

lemma walk_up_less:
  "parent_before h \<Longrightarrow> c < length h \<Longrightarrow> walk_up h (Suc k) (Some c) = Inr (Some a) \<Longrightarrow> a < c"
proof -
  assume pb: "parent_before h" and c: "c < length h"
    and w: "walk_up h (Suc k) (Some c) = Inr (Some a)"
  from w obtain p where p: "parent (h ! c) = Some p" "walk_up h k (Some p) = Inr (Some a)"
    by (cases "parent (h ! c)") (auto simp: walk_up_None split: if_splits)
  from parent_beforeD[OF pb c p(1)] have "p < c" .
  moreover from walk_up_le[OF pb _ p(2)] \<open>p < c\<close> c have "a \<le> p" by simp
  ultimately show ?thesis by simp
qed

lemma walk_up_inj:
  assumes pb: "parent_before h" and c: "c < length h"
    and w1: "walk_up h k1 (Some c) = Inr (Some a)"
    and w2: "walk_up h k2 (Some c) = Inr (Some a)"
  shows "k1 = k2"
proof -
  have less: "\<And>i j x y. i < j \<Longrightarrow> walk_up h i (Some c) = Inr (Some x) \<Longrightarrow>
      walk_up h j (Some c) = Inr (Some y) \<Longrightarrow> y < x"
  proof -
    fix i j :: nat and x y
    assume ij: "i < j" and wi: "walk_up h i (Some c) = Inr (Some x)"
      and wj: "walk_up h j (Some c) = Inr (Some y)"
    from ij obtain d where j: "j = i + Suc d" by (auto simp: less_iff_Suc_add)
    from wj wi have "walk_up h (Suc d) (Some x) = Inr (Some y)"
      unfolding j walk_up_add by simp
    moreover from walk_up_le[OF pb c wi] c have "x < length h" by simp
    ultimately show "y < x" using walk_up_less[OF pb] by blast
  qed
  show ?thesis
  proof (rule ccontr)
    assume "k1 \<noteq> k2"
    then consider "k1 < k2" | "k2 < k1" by linarith
    then show False
      using less[OF _ w1 w2] less[OF _ w2 w1] by cases auto
  qed
qed

lemma pre_ids_snoc_other:
  assumes np: "\<And>k. walk_up h k (Some p) \<noteq> Inr (Some c)"
  shows "pre_ids (h @ [\<lparr>name = nm, parent = Some p\<rparr>]) c = pre_ids h c"
  using np
proof (induction h c rule: pre_ids.induct)
  case (1 h i)
  from "1.prems"[of 0] have pi: "p \<noteq> i" by auto
  then have ch: "children (h @ [\<lparr>name = nm, parent = Some p\<rparr>]) i = children h i"
    by (simp add: children_snoc)
  have m: "map (pre_ids (h @ [\<lparr>name = nm, parent = Some p\<rparr>])) (children h i)
      = map (pre_ids h) (children h i)"
  proof (rule map_cong[OF refl])
    fix c' assume c': "c' \<in> set (children h i)"
    have "\<And>k. walk_up h k (Some p) \<noteq> Inr (Some c')"
    proof
      fix k assume "walk_up h k (Some p) = Inr (Some c')"
      with c' have "walk_up h (Suc k) (Some p) = Inr (Some i)"
        unfolding walk_up_Suc_end by (simp add: children_mem)
      with "1.prems" show False by blast
    qed
    from "1.IH"[OF c' this] show "pre_ids (h @ [\<lparr>name = nm, parent = Some p\<rparr>]) c' = pre_ids h c'" .
  qed
  have "i # concat (map (pre_ids (h @ [\<lparr>name = nm, parent = Some p\<rparr>]))
        (children (h @ [\<lparr>name = nm, parent = Some p\<rparr>]) i))
      = i # concat (map (pre_ids h) (children h i))"
    by (simp only: ch m)
  then show ?case
    by (simp only: pre_ids.simps[symmetric])
qed

lemma pre_ids_nonempty: "pre_ids h i \<noteq> []"
  by (subst pre_ids.simps) simp

lemma concat_pre_ids_empty: "concat (map (pre_ids h) ds) = [] \<Longrightarrow> ds = []"
  by (cases ds) (auto simp: pre_ids_nonempty)

lemma last_child_block:
  assumes a: "pre_ids h a = [a ..< length h]"
    and c: "pre_ids h c = [c ..< length h]" "c < length h"
    and cs: "children h a = bs @ c # ds"
  shows "ds = []"
proof -
  let ?B = "a # concat (map (pre_ids h) bs)"
  let ?D = "concat (map (pre_ids h) ds)"
  have "pre_ids h a = a # concat (map (pre_ids h) (bs @ c # ds))"
    unfolding cs[symmetric] by (rule pre_ids.simps)
  with a c(1) have eq: "[a ..< length h] = ?B @ [c ..< length h] @ ?D"
    by simp
  have "sorted_wrt (<) (?B @ [c ..< length h] @ ?D)"
    unfolding eq[symmetric] by simp
  then have gt: "\<forall>x \<in> set [c ..< length h]. \<forall>y \<in> set ?D. x < y"
    by (simp only: sorted_wrt_append) blast
  have "set ?D \<subseteq> set [a ..< length h]"
    unfolding eq by auto
  then have lt: "\<forall>y \<in> set ?D. y < length h" by auto
  have "?D = []"
  proof (rule ccontr)
    assume "?D \<noteq> []"
    then obtain y where y: "y \<in> set ?D" by (cases ?D) auto
    from c(2) have "length h - 1 \<in> set [c ..< length h]" by auto
    with gt y have "length h - 1 < y" by blast
    moreover from lt y have "y < length h" by blast
    ultimately show False by simp
  qed
  then show ?thesis by (rule concat_pre_ids_empty)
qed

lemma pre_ids_last: "pre_ids (h @ [x]) (length h) = [length h]"
  by (subst pre_ids.simps) (simp add: children_def)

lemma pre_ids_snoc_spine:
  assumes pb: "parent_before h" and p: "p < length h"
    and J: "\<And>k a. walk_up h k (Some p) = Inr (Some a) \<Longrightarrow> pre_ids h a = [a ..< length h]"
  shows "walk_up h k (Some p) = Inr (Some a) \<Longrightarrow>
     pre_ids (h @ [\<lparr>name = nm, parent = Some p\<rparr>]) a = [a ..< Suc (length h)]"
proof (induction k arbitrary: a)
  case 0
  let ?h' = "h @ [\<lparr>name = nm, parent = Some p\<rparr>]"
  from 0 have a: "a = p" by simp
  have m: "map (pre_ids ?h') (children h p) = map (pre_ids h) (children h p)"
  proof (rule map_cong[OF refl])
    fix c assume c: "c \<in> set (children h p)"
    have "\<And>k. walk_up h k (Some p) \<noteq> Inr (Some c)"
    proof
      fix k assume "walk_up h k (Some p) = Inr (Some c)"
      from walk_up_le[OF pb p this] c show False by (simp add: children_mem)
    qed
    then show "pre_ids ?h' c = pre_ids h c" by (rule pre_ids_snoc_other)
  qed
  have "pre_ids ?h' p = p # concat (map (pre_ids ?h') (children ?h' p))"
    by (rule pre_ids.simps)
  also have "\<dots> = (p # concat (map (pre_ids h) (children h p))) @ [length h]"
    using p by (simp add: children_snoc m pre_ids_last)
  also have "\<dots> = pre_ids h p @ [length h]"
    by (simp only: pre_ids.simps[symmetric])
  also have "\<dots> = [p ..< Suc (length h)]"
    using J[of 0 p] p by simp
  finally show ?case unfolding a .
next
  case (Suc k)
  let ?h' = "h @ [\<lparr>name = nm, parent = Some p\<rparr>]"
  from Suc.prems obtain a' where a': "walk_up h k (Some p) = Inr (Some a')"
    "parent (h ! a') = Some a"
    unfolding walk_up_Suc_end
    by (auto split: sum.splits option.splits elim: get_parent.elims)
  from walk_up_le[OF pb p a'(1)] p have a'p: "a' \<le> p" "a' < length h" by simp_all
  from parent_beforeD[OF pb a'p(2) a'(2)] have aa': "a < a'" .
  from a'(2) aa' a'p have "a' \<in> set (children h a)" by (simp add: children_mem)
  then obtain bs ds where cs: "children h a = bs @ a' # ds"
    by (auto dest: split_list)
  have Ja: "pre_ids h a = [a ..< length h]" by (rule J[OF Suc.prems])
  have Ja': "pre_ids h a' = [a' ..< length h]" by (rule J[OF a'(1)])
  from last_child_block[OF Ja Ja' a'p(2) cs] have ds: "ds = []" .
  from distinct_children[of h a] cs have nb: "a' \<notin> set bs" by simp
  have m: "map (pre_ids ?h') bs = map (pre_ids h) bs"
  proof (rule map_cong[OF refl])
    fix b assume b: "b \<in> set bs"
    with cs have bc: "b \<in> set (children h a)" by simp
    have "\<And>k1. walk_up h k1 (Some p) \<noteq> Inr (Some b)"
    proof
      fix k1 assume w: "walk_up h k1 (Some p) = Inr (Some b)"
      with bc have "walk_up h (Suc k1) (Some p) = Inr (Some a)"
        unfolding walk_up_Suc_end by (simp add: children_mem)
      from walk_up_inj[OF pb p this Suc.prems] have "k1 = k" by simp
      with w a'(1) have "b = a'" by simp
      with b nb show False by simp
    qed
    then show "pre_ids ?h' b = pre_ids h b" by (rule pre_ids_snoc_other)
  qed
  from aa' a'p have "p \<noteq> a" by simp
  then have ch: "children ?h' a = bs @ [a']"
    by (simp add: children_snoc cs ds)
  have "pre_ids ?h' a = a # concat (map (pre_ids ?h') (children ?h' a))"
    by (rule pre_ids.simps)
  also have "\<dots> = (a # concat (map (pre_ids h) bs) @ pre_ids h a') @ [length h]"
    using a'p by (simp add: ch m Suc.IH[OF a'(1)] Ja')
  also have "a # concat (map (pre_ids h) bs) @ pre_ids h a' = pre_ids h a"
    by (subst (2) pre_ids.simps) (simp add: cs ds)
  also have "pre_ids h a @ [length h] = [a ..< Suc (length h)]"
    using aa' a'p by (simp add: Ja)
  finally show ?case .
qed

lemma spine_snoc:
  assumes pb: "parent_before h"
    and q: "case q of None \<Rightarrow> True
            | Some p \<Rightarrow> p < length h \<and>
                (\<forall>k a. walk_up h k (Some p) = Inr (Some a) \<longrightarrow> pre_ids h a = [a ..< length h])"
    and w: "walk_up (h @ [\<lparr>name = nm, parent = q\<rparr>]) k (Some (length h)) = Inr (Some a)"
  shows "pre_ids (h @ [\<lparr>name = nm, parent = q\<rparr>]) a = [a ..< Suc (length h)]"
proof (cases k)
  case 0
  with w have "a = length h" by simp
  then show ?thesis by (simp add: pre_ids_last)
next
  case (Suc k')
  with w have w': "walk_up (h @ [\<lparr>name = nm, parent = q\<rparr>]) k' q = Inr (Some a)"
    by simp
  then obtain p where p: "q = Some p"
    by (cases q) (auto simp: walk_up_None split: if_splits)
  with q have pl: "p < length h"
    and J: "\<And>k a. walk_up h k (Some p) = Inr (Some a) \<Longrightarrow> pre_ids h a = [a ..< length h]"
    by auto
  from w' have "walk_up h k' (Some p) = Inr (Some a)"
    unfolding p walk_up_append[OF pb pl] .
  from pre_ids_snoc_spine[OF pb pl J this] show ?thesis unfolding p .
qed

lemma adding_to_tree_spine:
  assumes inv: "builder_inv st" and sp: "spine_ok st"
    and a: "adding_to_tree st index function = Inr st'"
  shows "spine_ok st'"
proof -
  from inv have pb: "parent_before (nodes st)"
    and cv: "\<And>c. curr_node st = Some c \<Longrightarrow> c < length (nodes st)"
    by (auto simp: builder_inv_def)
  from sp have J: "\<And>k a. walk_up (nodes st) k (curr_node st) = Inr (Some a) \<Longrightarrow>
      pre_ids (nodes st) a = [a ..< length (nodes st)]"
    by (simp add: spine_ok_def)
  have new: "spine_ok (st0\<lparr>nodes := nodes st @ [\<lparr>name = function, parent = q\<rparr>],
        curr_node := Some (length (nodes st))\<rparr>)"
    if "case q of None \<Rightarrow> True
        | Some p \<Rightarrow> p < length (nodes st) \<and>
            (\<forall>k a. walk_up (nodes st) k (Some p) = Inr (Some a)
               \<longrightarrow> pre_ids (nodes st) a = [a ..< length (nodes st)])" for q and st0 :: builder
    using spine_snoc[OF pb that] by (simp add: spine_ok_def)
  have cur: "case curr_node st of None \<Rightarrow> True
        | Some p \<Rightarrow> p < length (nodes st) \<and>
            (\<forall>k a. walk_up (nodes st) k (Some p) = Inr (Some a)
               \<longrightarrow> pre_ids (nodes st) a = [a ..< length (nodes st)])"
    using cv J by (auto split: option.splits)
  consider (zero) "index = 0" | (child) "index \<noteq> 0" "index = curr_lvl st + 1"
    | (up) "index \<noteq> 0" "index \<noteq> curr_lvl st + 1" "index < curr_lvl st"
    | (sib) "index \<noteq> 0" "index = curr_lvl st"
    | (bad) "index \<noteq> 0" "index \<noteq> curr_lvl st + 1" "\<not> index < curr_lvl st" "index \<noteq> curr_lvl st"
    by linarith
  then show ?thesis
  proof cases
    case zero
    show ?thesis
    proof (cases "tree st")
      case None
      with zero a have "st' = (st\<lparr>tree := Some (length (nodes st)), curr_lvl := 0\<rparr>)
          \<lparr>nodes := nodes st @ [\<lparr>name = function, parent = None\<rparr>],
            curr_node := Some (length (nodes st))\<rparr>"
        by (auto simp: adding_to_tree_def Node_def)
      then show ?thesis using new[of None] by simp
    next
      case (Some r)
      with zero a sp show ?thesis by (simp add: adding_to_tree_def)
    qed
  next
    case child
    with a have "st' = (st\<lparr>curr_lvl := curr_lvl st + 1\<rparr>)
          \<lparr>nodes := nodes st @ [\<lparr>name = function, parent = curr_node st\<rparr>],
            curr_node := Some (length (nodes st))\<rparr>"
      by (auto simp: adding_to_tree_def Node_def)
    then show ?thesis using new[OF cur] by simp
  next
    case up
    with a obtain c' where w: "walk_up (nodes st) (nat (curr_lvl st - index)) (curr_node st) = Inr c'"
      and st': "st' = st\<lparr>curr_node := c', curr_lvl := index\<rparr>"
      by (auto simp: adding_to_tree_def split: sum.splits)
    show ?thesis
      unfolding spine_ok_def
    proof (intro allI impI)
      fix k a assume "walk_up (nodes st') k (curr_node st') = Inr (Some a)"
      with w have "walk_up (nodes st) (nat (curr_lvl st - index) + k) (curr_node st) = Inr (Some a)"
        unfolding walk_up_add by (simp add: st')
      from J[OF this] show "pre_ids (nodes st') a = [a ..< length (nodes st')]"
        by (simp add: st')
    qed
  next
    case sib
    with a obtain c where c: "curr_node st = Some c"
      and st': "st' = st\<lparr>nodes := nodes st @ [\<lparr>name = function, parent = parent (nodes st ! c)\<rparr>],
         curr_node := Some (length (nodes st))\<rparr>"
      by (cases "curr_node st") (auto simp: adding_to_tree_def Node_def)
    have "case parent (nodes st ! c) of None \<Rightarrow> True
        | Some p \<Rightarrow> p < length (nodes st) \<and>
            (\<forall>k a. walk_up (nodes st) k (Some p) = Inr (Some a)
               \<longrightarrow> pre_ids (nodes st) a = [a ..< length (nodes st)])"
    proof (cases "parent (nodes st ! c)")
      case None
      then show ?thesis by simp
    next
      case (Some p)
      from parent_beforeD[OF pb cv[OF c] Some] cv[OF c] have "p < length (nodes st)" by simp
      moreover have "pre_ids (nodes st) a = [a ..< length (nodes st)]"
        if "walk_up (nodes st) k (Some p) = Inr (Some a)" for k a
      proof -
        from that Some have "walk_up (nodes st) (Suc k) (curr_node st) = Inr (Some a)"
          by (simp add: c)
        then show ?thesis by (rule J)
      qed
      ultimately show ?thesis using Some by simp
    qed
    from new[OF this] show ?thesis unfolding st' by simp
  next
    case bad
    with a show ?thesis by (auto simp: adding_to_tree_def split: option.splits)
  qed
qed

lemma generate_tree_step_spine:
  assumes "builder_inv (fst s)" "spine_ok (fst s)"
    and "generate_tree_step filters_list s entry = Inr s'"
  shows "spine_ok (fst s')"
  using assms
  by (auto simp: generate_tree_step_def Let_def
      split: option.splits sum.splits if_splits dest: adding_to_tree_spine)

lemma generate_tree_loop_spine:
  "builder_inv (fst s) \<Longrightarrow> spine_ok (fst s) \<Longrightarrow> depths_ok data \<Longrightarrow>
   generate_tree_loop filters_list s data = Inr s' \<Longrightarrow> spine_ok (fst s')"
proof (induction data arbitrary: s)
  case Nil
  then show ?case by simp
next
  case (Cons entry data)
  from Cons.prems(4) obtain s1 where s1: "generate_tree_step filters_list s entry = Inr s1"
    "generate_tree_loop filters_list s1 data = Inr s'"
    by (auto split: sum.splits)
  from Cons.prems(3) have d: "0 \<le> fst entry" "depths_ok data" by (auto simp: depths_ok_def)
  from generate_tree_step_inv[OF Cons.prems(1) d(1) s1(1)] have "builder_inv (fst s1)" .
  moreover from generate_tree_step_spine[OF Cons.prems(1,2) s1(1)] have "spine_ok (fst s1)" .
  ultimately show ?case using Cons.IH[OF _ _ d(2) s1(2)] by simp
qed

lemma spine_ok_init: "spine_ok (fst init)"
  by (simp add: spine_ok_def init_def walk_up_None)

lemma rooted_spine_pre_ids:
  assumes "rooted st" "spine_ok st" "tree st = Some r"
  shows "pre_ids (nodes st) r = [r ..< length (nodes st)]"
proof -
  from assms(1,3) obtain c where "curr_node st = Some c"
    "walk_up (nodes st) (nat (curr_lvl st)) (Some c) = Inr (Some r)"
    by (auto simp: rooted_def split: option.splits)
  with assms(2) show ?thesis by (auto simp: spine_ok_def)
qed

lemma map_nth_upt_drop: "map (\<lambda>j. f (h ! j)) [r ..< length h] = map f (drop r h)"
  by (rule nth_equalityI) auto

lemma state_preorder:
  assumes "builder_inv st" "spine_ok st" "tree st = Some r"
  shows "preorder (nodes st) r = map name (drop r (nodes st))"
proof -
  from assms(1,3) have "rooted st" by (simp add: builder_inv_def)
  from rooted_spine_pre_ids[OF this assms(2,3)] show ?thesis
    by (simp add: preorder_def map_nth_upt_drop)
qed

lemma generate_tree_preorder:
  assumes d: "depths_ok data" and g: "generate_tree data filters_list = Inr (h, Some r)"
  shows "preorder h r = map name (drop r h)"
proof -
  from g obtain s where s: "generate_tree_loop filters_list init data = Inr s"
    "h = nodes (fst s)" "tree (fst s) = Some r"
    by (auto simp: generate_tree_def split: sum.splits)
  from reachable_inv[OF d s(1)] have inv: "builder_inv (fst s)" .
  from generate_tree_loop_spine[OF builder_inv_init spine_ok_init d s(1)]
  have sp: "spine_ok (fst s)" .
  from state_preorder[OF inv sp s(3)] show ?thesis unfolding s(2) .
qed

lemma valid_step:
  assumes ro: "rooted st" and i: "1 \<le> index" "index = curr_lvl st + 1 \<or> index = curr_lvl st"
  shows "\<exists>st'. adding_to_tree st index function = Inr st'
     \<and> map name (nodes st') = map name (nodes st) @ [function]
     \<and> tree st' = tree st \<and> curr_lvl st' = index"
proof -
  from ro obtain c where c: "curr_node st = Some c"
    by (auto simp: rooted_def split: option.splits)
  from i(2) show ?thesis
  proof
    assume "index = curr_lvl st + 1"
    with i(1) show ?thesis by (simp add: adding_to_tree_def Node_def)
  next
    assume "index = curr_lvl st"
    with i(1) c show ?thesis by (simp add: adding_to_tree_def Node_def)
  qed
qed

lemma valid_run:
  assumes "builder_inv st" "tree st \<noteq> None"
    and "adjacent (curr_lvl st) data" "list_all (\<lambda>entry. 1 \<le> fst entry) data"
  shows "\<exists>st'. generate_tree_loop None (st, next_index) data = Inr (st', next_index)
     \<and> map name (nodes st') = map name (nodes st) @ map snd data
     \<and> tree st' = tree st"
  using assms
proof (induction data arbitrary: st)
  case Nil
  then show ?case by simp
next
  case (Cons entry data)
  from Cons.prems(1,2) have ro: "rooted st" by (simp add: builder_inv_def)
  from Cons.prems(3,4) have i: "1 \<le> fst entry"
    "fst entry = curr_lvl st + 1 \<or> fst entry = curr_lvl st"
    and rest: "adjacent (fst entry) data" "list_all (\<lambda>entry. 1 \<le> fst entry) data"
    by simp_all
  from valid_step[OF ro i, of "snd entry"] obtain st1 where
    st1: "adding_to_tree st (fst entry) (snd entry) = Inr st1"
    "map name (nodes st1) = map name (nodes st) @ [snd entry]"
    "tree st1 = tree st" "curr_lvl st1 = fst entry"
    by blast
  from i(1) have "0 \<le> fst entry" by simp
  from adding_to_tree_inv[OF Cons.prems(1) this st1(1)] have inv1: "builder_inv st1" .
  from Cons.IH[OF inv1, of] st1 Cons.prems(2) rest obtain st' where
    st': "generate_tree_loop None (st1, next_index) data = Inr (st', next_index)"
    "map name (nodes st') = map name (nodes st1) @ map snd data"
    "tree st' = tree st1"
    by auto
  have "generate_tree_step None (st, next_index) entry = Inr (st1, next_index)"
    by (simp add: generate_tree_step_def st1(1))
  with st' st1 show ?case by simp
qed

text \<open>
  In a store where every node comes after its parent, \<open>children\<close> misses no child;
  and \<open>preorder\<close> is the pre-order of the tree value that \<open>subtree\<close> reads.
\<close>

lemma children_complete:
  assumes "parent_before h"
  shows "set (children h i) = {j. j < length h \<and> parent (h ! j) = Some i}"
proof -
  have "Suc i \<le> j" if "j < length h" "parent (h ! j) = Some i" for j
    using parent_beforeD[OF assms that] by simp
  then show ?thesis by (auto simp: children_def)
qed

lemma rtree_labels_subtree: "rtree_labels (subtree h i) = preorder h i"
proof (induction h i rule: pre_ids.induct)
  case (1 h i)
  have m: "map (\<lambda>c. rtree_labels (subtree h c)) (children h i)
      = map (preorder h) (children h i)"
    by (rule map_cong[OF refl]) (rule "1.IH")
  have "rtree_labels (subtree h i)
      = name (h ! i) # concat (map (\<lambda>c. rtree_labels (subtree h c)) (children h i))"
    by (subst subtree.simps) (simp add: comp_def)
  also have "\<dots> = name (h ! i) # concat (map (preorder h) (children h i))"
    by (simp only: m)
  also have "\<dots> = preorder h i"
    unfolding preorder_def by (subst (2) pre_ids.simps) (simp add: map_concat comp_def)
  finally show ?case .
qed

subsection \<open>Runs over valid sequences\<close>

lemma processed_step:
  assumes pb: "parent_before (nodes st)" and ro: "rooted st"
    and i: "1 \<le> index" "index \<le> curr_lvl st + 1"
  shows "\<exists>st'. adding_to_tree st index function = Inr st'
     \<and> tree st' = tree st \<and> curr_lvl st' = index"
proof -
  from ro obtain c where c: "curr_node st = Some c"
    by (auto simp: rooted_def split: option.splits)
  consider (child) "index = curr_lvl st + 1" | (up) "index < curr_lvl st" | (sib) "index = curr_lvl st"
    using i(2) by linarith
  then show ?thesis
  proof cases
    case child
    with i(1) show ?thesis by (simp add: adding_to_tree_def Node_def)
  next
    case up
    from i(1) have pos: "0 < index" by simp
    from rooted_ascent[OF pb ro pos up] obtain a where
      "walk_up (nodes st) (nat (curr_lvl st - index)) (curr_node st) = Inr (Some a)"
      by blast
    with up pos show ?thesis by (simp add: adding_to_tree_def)
  next
    case sib
    with i(1) c show ?thesis by (simp add: adding_to_tree_def Node_def)
  qed
qed

lemma skipped_run:
  "list_all (\<lambda>entry. 1 \<le> fst entry) data \<Longrightarrow>
   generate_tree_loop (Some fl) (st, Some 0) data = Inr (st, Some 0)"
  by (induction data) (auto simp: generate_tree_step_def)

lemma filtered_valid_run:
  assumes "builder_inv st" "tree st \<noteq> None"
    and "adjacent prev data" "list_all (\<lambda>entry. 1 \<le> fst entry) data"
    and "case next_index of None \<Rightarrow> curr_lvl st = prev
         | Some n \<Rightarrow> n \<le> prev \<and> n \<le> curr_lvl st + 1"
  shows "\<exists>s'. generate_tree_loop (Some fl) (st, next_index) data = Inr s'"
  using assms
proof (induction data arbitrary: st next_index prev)
  case Nil
  then show ?case by simp
next
  case (Cons entry data)
  from Cons.prems(1,2) have pb: "parent_before (nodes st)" and ro: "rooted st"
    by (simp_all add: builder_inv_def)
  from Cons.prems(3,4) have i: "1 \<le> fst entry" "fst entry = prev + 1 \<or> fst entry = prev"
    and rest: "adjacent (fst entry) data" "list_all (\<lambda>entry. 1 \<le> fst entry) data"
    by simp_all
  show ?case
  proof (cases "is_child_of_filtered next_index (fst entry)")
    case True
    then obtain n where n: "next_index = Some n" "n < fst entry"
      by (cases next_index) auto
    from True have step: "generate_tree_step (Some fl) (st, next_index) entry = Inr (st, next_index)"
      by (simp add: generate_tree_step_def)
    from n Cons.prems(5) have "case next_index of None \<Rightarrow> curr_lvl st = fst entry
         | Some n \<Rightarrow> n \<le> fst entry \<and> n \<le> curr_lvl st + 1"
      by simp
    from Cons.IH[OF Cons.prems(1,2) rest this] step show ?thesis by simp
  next
    case False
    with Cons.prems(5) i(2) have le: "fst entry \<le> curr_lvl st + 1"
      by (cases next_index) auto
    show ?thesis
    proof (cases "is_filtered fl (snd entry)")
      case True
      with False have step:
        "generate_tree_step (Some fl) (st, next_index) entry = Inr (st, Some (fst entry))"
        by (simp add: generate_tree_step_def)
      from le have "case Some (fst entry) of None \<Rightarrow> curr_lvl st = fst entry
         | Some n \<Rightarrow> n \<le> fst entry \<and> n \<le> curr_lvl st + 1"
        by simp
      from Cons.IH[OF Cons.prems(1,2) rest this] step show ?thesis by simp
    next
      case nf: False
      from processed_step[OF pb ro i(1) le, of "snd entry"] obtain st1 where
        st1: "adding_to_tree st (fst entry) (snd entry) = Inr st1"
        "tree st1 = tree st" "curr_lvl st1 = fst entry"
        by blast
      from i(1) have "0 \<le> fst entry" by simp
      from adding_to_tree_inv[OF Cons.prems(1) this st1(1)] have inv1: "builder_inv st1" .
      from False nf st1(1) have step:
        "generate_tree_step (Some fl) (st, next_index) entry = Inr (st1, None)"
        by (simp add: generate_tree_step_def)
      have "case None of None \<Rightarrow> curr_lvl st1 = fst entry
         | Some n \<Rightarrow> n \<le> fst entry \<and> n \<le> curr_lvl st1 + 1"
        by (simp add: st1(3))
      from Cons.IH[OF inv1 _ rest this] st1(2) Cons.prems(2) step show ?thesis by simp
    qed
  qed
qed

lemma filtered_never_fails:
  assumes v: "valid_sequence data" and p: "deeper_after_first data"
  shows "\<exists>hf tf. generate_tree data (Some fl) = Inr (hf, tf)"
proof -
  from v obtain entry rest where data: "data = entry # rest" and e: "fst entry = 0"
    and adj: "adjacent 0 rest"
    by (auto simp: valid_sequence_def split: list.splits)
  from p have pos: "list_all (\<lambda>entry. 1 \<le> fst entry) rest"
    by (simp add: deeper_after_first_def data)
  have "\<exists>s'. generate_tree_loop (Some fl) init data = Inr s'"
  proof (cases "is_filtered fl (snd entry)")
    case True
    then have "generate_tree_step (Some fl) init entry = Inr (fst init, Some 0)"
      by (simp add: generate_tree_step_def init_def e)
    with skipped_run[OF pos, of fl "fst init"] show ?thesis by (simp add: data)
  next
    case False
    let ?st0 = "\<lparr>nodes = [\<lparr>name = snd entry, parent = None\<rparr>], tree = Some 0,
      curr_node = Some 0, curr_lvl = 0\<rparr>"
    have a0: "adding_to_tree (fst init) (fst entry) (snd entry) = Inr ?st0"
      by (simp add: adding_to_tree_def init_def Node_def e)
    with False have s0: "generate_tree_step (Some fl) init entry = Inr (?st0, None)"
      by (simp add: generate_tree_step_def init_def)
    from adding_to_tree_inv[OF builder_inv_init _ a0] e have inv0: "builder_inv ?st0" by simp
    from filtered_valid_run[OF inv0 _ adj pos, of None fl] obtain s' where
      "generate_tree_loop (Some fl) (?st0, None) rest = Inr s'"
      by auto
    with s0 show ?thesis by (simp add: data)
  qed
  then show ?thesis by (auto simp: generate_tree_def)
qed

lemma valid_depths_ok:
  assumes "valid_sequence data" "deeper_after_first data"
  shows "depths_ok data"
  using assms
  by (cases data) (auto simp: valid_sequence_def deeper_after_first_def depths_ok_def list_all_iff)

lemma tree_in_store_step:
  assumes "\<forall>r. tree st = Some r \<longrightarrow> r < length (nodes st)"
    and "adding_to_tree st index function = Inr st'"
  shows "\<forall>r. tree st' = Some r \<longrightarrow> r < length (nodes st')"
  using assms
  by (auto simp: adding_to_tree_def Node_def split: if_splits sum.splits option.splits)

lemma tree_in_store_loop:
  "\<forall>r. tree (fst s) = Some r \<longrightarrow> r < length (nodes (fst s)) \<Longrightarrow>
   generate_tree_loop filters_list s data = Inr s' \<Longrightarrow>
   \<forall>r. tree (fst s') = Some r \<longrightarrow> r < length (nodes (fst s'))"
proof (induction data arbitrary: s)
  case Nil
  then show ?case by simp
next
  case (Cons entry data)
  from Cons.prems(2) obtain s1 where s1: "generate_tree_step filters_list s entry = Inr s1"
    "generate_tree_loop filters_list s1 data = Inr s'"
    by (auto split: sum.splits)
  have "\<forall>r. tree (fst s1) = Some r \<longrightarrow> r < length (nodes (fst s1))"
  proof (cases "fst s1 = fst s")
    case True
    with Cons.prems(1) show ?thesis by simp
  next
    case False
    with s1(1) have "adding_to_tree (fst s) (fst entry) (snd entry) = Inr (fst s1)"
      by (auto simp: generate_tree_step_def Let_def split: option.splits sum.splits if_splits)
    from tree_in_store_step[OF Cons.prems(1) this] show ?thesis .
  qed
  from Cons.IH[OF this s1(2)] show ?case .
qed

lemma generate_tree_root_in_store:
  assumes "generate_tree data filters_list = Inr (h, Some r)"
  shows "r < length h"
proof -
  from assms obtain s where s: "generate_tree_loop filters_list init data = Inr s"
    "h = nodes (fst s)" "tree (fst s) = Some r"
    by (auto simp: generate_tree_def split: sum.splits)
  have "\<forall>r. tree (fst init) = Some r \<longrightarrow> r < length (nodes (fst init))"
    by (simp add: init_def)
  from tree_in_store_loop[OF this s(1)] s(2,3) show ?thesis by simp
qed

lemma pre_ids_bound: "x \<in> set (pre_ids h i) \<Longrightarrow> x = i \<or> x < length h"
proof (induction h i rule: pre_ids.induct)
  case (1 h i)
  from "1.prems" have "x = i \<or> (\<exists>c \<in> set (children h i). x \<in> set (pre_ids h c))"
    by (subst (asm) pre_ids.simps) auto
  then show ?case
  proof
    assume "x = i"
    then show ?thesis by simp
  next
    assume "\<exists>c \<in> set (children h i). x \<in> set (pre_ids h c)"
    then obtain c where c: "c \<in> set (children h i)" "x \<in> set (pre_ids h c)" by blast
    from "1.IH"[OF c] c(1) show ?thesis by (auto simp: children_mem)
  qed
qed

lemma tree_labels_from_entries:
  assumes g: "generate_tree data filters_list = Inr (h, Some r)"
  shows "set (preorder h r) \<subseteq> snd ` set data"
proof
  fix x assume "x \<in> set (preorder h r)"
  then obtain j where j: "j \<in> set (pre_ids h r)" "x = name (h ! j)"
    by (auto simp: preorder_def)
  from pre_ids_bound[OF j(1)] generate_tree_root_in_store[OF g] have "j < length h" by auto
  then have "h ! j \<in> set h" by simp
  from generate_tree_names[OF g this] j(2) show "x \<in> snd ` set data" by simp
qed

lemma unfiltered_labels:
  assumes v: "valid_sequence data" and p: "deeper_after_first data"
  shows "labels_of (generate_tree data None) = Some (map snd data)"
proof -
  from v obtain entry rest where data: "data = entry # rest" and e: "fst entry = 0"
    and adj: "adjacent 0 rest"
    by (auto simp: valid_sequence_def split: list.splits)
  from p have pos: "list_all (\<lambda>entry. 1 \<le> fst entry) rest"
    by (simp add: deeper_after_first_def data)
  let ?st0 = "\<lparr>nodes = [\<lparr>name = snd entry, parent = None\<rparr>], tree = Some 0,
      curr_node = Some 0, curr_lvl = 0\<rparr>"
  have a0: "adding_to_tree (fst init) (fst entry) (snd entry) = Inr ?st0"
    by (simp add: adding_to_tree_def init_def Node_def e)
  then have s0: "generate_tree_step None init entry = Inr (?st0, None)"
    by (simp add: generate_tree_step_def init_def)
  from adding_to_tree_inv[OF builder_inv_init _ a0] e have inv0: "builder_inv ?st0" by simp
  from valid_run[OF inv0, of rest None] adj pos obtain st' where
    st': "generate_tree_loop None (?st0, None) rest = Inr (st', None)"
    "map name (nodes st') = snd entry # map snd rest" "tree st' = Some 0"
    by auto
  from s0 st'(1) have l: "generate_tree_loop None init data = Inr (st', None)"
    by (simp add: data)
  then have g: "generate_tree data None = Inr (nodes st', Some 0)"
    by (simp add: generate_tree_def st'(3))
  from generate_tree_preorder[OF valid_depths_ok[OF v p] g]
  have "preorder (nodes st') 0 = map snd data"
    by (simp add: st'(2) data)
  with g show ?thesis by simp
qed

lemma filtered_subset_valid_sequence:
  assumes v: "valid_sequence data" and p: "deeper_after_first data"
  shows "\<exists>hf tf lu. generate_tree data (Some fl) = Inr (hf, tf)
     \<and> labels_of (generate_tree data None) = Some lu
     \<and> (case tf of None \<Rightarrow> True | Some rf \<Rightarrow> set (preorder hf rf) \<subseteq> set lu)"
proof -
  from filtered_never_fails[OF v p, of fl] obtain hf tf where
    g: "generate_tree data (Some fl) = Inr (hf, tf)"
    by blast
  have "case tf of None \<Rightarrow> True | Some rf \<Rightarrow> set (preorder hf rf) \<subseteq> set (map snd data)"
  proof (cases tf)
    case None
    then show ?thesis by simp
  next
    case (Some rf)
    from tree_labels_from_entries[OF g[unfolded Some]] Some
    show ?thesis by simp
  qed
  with g unfiltered_labels[OF v p] show ?thesis by blast
qed

section \<open>The claims\<close>

subsection \<open>Entries of depth 0 after the root\<close>

text \<open>
  Claim C10. An entry of depth 0 that is processed when the root already exists is
  ignored: \<^verbatim>\<open>adding_to_tree\<close> returns the tree, the current node and the current level
  as they were and allocates no node, whatever the current level is; the run without
  a filter goes on as if the entry were not there.
\<close>

theorem depth0_after_root_ignored:
  assumes "tree st \<noteq> None"
  shows "adding_to_tree st 0 function = Inr st
    \<and> generate_tree_loop None (st, next_index) ((0, function) # data)
        = generate_tree_loop None (st, next_index) data"
  using assms by (auto simp: adding_to_tree_def generate_tree_step_def)

theorem depth0_after_root_ignored_witness:
  "tree \<lparr>nodes = [\<lparr>name = ''A'', parent = None\<rparr>, \<lparr>name = ''B'', parent = Some 0\<rparr>],
      tree = Some 0, curr_node = Some 1, curr_lvl = 1\<rparr> \<noteq> None
   \<and> adding_to_tree \<lparr>nodes = [\<lparr>name = ''A'', parent = None\<rparr>, \<lparr>name = ''B'', parent = Some 0\<rparr>],
      tree = Some 0, curr_node = Some 1, curr_lvl = 1\<rparr> 0 ''X''
     = Inr \<lparr>nodes = [\<lparr>name = ''A'', parent = None\<rparr>, \<lparr>name = ''B'', parent = Some 0\<rparr>],
      tree = Some 0, curr_node = Some 1, curr_lvl = 1\<rparr>"
  using depth0_after_root_ignored [of "\<lparr>nodes = [\<lparr>name = ''A'', parent = None\<rparr>, \<lparr>name = ''B'', parent = Some 0\<rparr>],
      tree = Some 0, curr_node = Some 1, curr_lvl = 1\<rparr>" "''X''" None "[]"]
  by simp

subsection \<open>The examples of the specification\<close>

text \<open>
  Claim C3. With the filter list \<open>[''Bad'']\<close>, the entries (0, A), (1, Bad), (2, C),
  (3, D), (1, E) give the tree with root A and the single child E: the store holds
  these two nodes only, so no node is labelled Bad, C or D.
\<close>

theorem suppression_example:
  "generate_tree [(0, ''A''), (1, ''Bad''), (2, ''C''), (3, ''D''), (1, ''E'')] (Some [''Bad''])
     = Inr ([\<lparr>name = ''A'', parent = None\<rparr>, \<lparr>name = ''E'', parent = Some 0\<rparr>], Some 0)
   \<and> tree_of (generate_tree [(0, ''A''), (1, ''Bad''), (2, ''C''), (3, ''D''), (1, ''E'')]
        (Some [''Bad''])) = Some (RNode ''A'' [RNode ''E'' []])"
  by code_simp

theorem suppression_example_witness:
  "labels_of (generate_tree [(0, ''A''), (1, ''Bad''), (2, ''C''), (3, ''D''), (1, ''E'')]
     (Some [''Bad''])) = Some [''A'', ''E'']"
proof -
  have "preorder [\<lparr>name = ''A'', parent = None\<rparr>, \<lparr>name = ''E'', parent = Some 0\<rparr>] 0 = [''A'', ''E'']"
    by code_simp
  with suppression_example show ?thesis by simp
qed

text \<open>
  Claim C2, as stated, fails: for the entries (0, A), (1, B), (2, C), (1, D) and no
  filter the tree is A with child B with child C, and no node is labelled D.
\<close>

theorem ascent_example_counterexample:
  "tree_of (generate_tree [(0, ''A''), (1, ''B''), (2, ''C''), (1, ''D'')] None)
     = Some (RNode ''A'' [RNode ''B'' [RNode ''C'' []]])
   \<and> labels_of (generate_tree [(0, ''A''), (1, ''B''), (2, ''C''), (1, ''D'')] None)
     = Some [''A'', ''B'', ''C'']"
  by code_simp

text \<open>
  Claim C2, amended. For the entries (0, A), (1, B), (2, C), (1, D) and no filter, the
  first three entries build A with child B with child C and leave the current node at
  C, level 2; the entry (1, D) allocates no node and moves the current node up to B,
  level 1, so the tree returned is the tree of the first three entries.
\<close>

theorem ascent_example:
  "generate_tree_loop None init [(0, ''A''), (1, ''B''), (2, ''C'')]
     = Inr (\<lparr>nodes = [\<lparr>name = ''A'', parent = None\<rparr>, \<lparr>name = ''B'', parent = Some 0\<rparr>,
              \<lparr>name = ''C'', parent = Some 1\<rparr>],
            tree = Some 0, curr_node = Some 2, curr_lvl = 2\<rparr>, None)
   \<and> generate_tree_loop None init [(0, ''A''), (1, ''B''), (2, ''C''), (1, ''D'')]
     = Inr (\<lparr>nodes = [\<lparr>name = ''A'', parent = None\<rparr>, \<lparr>name = ''B'', parent = Some 0\<rparr>,
              \<lparr>name = ''C'', parent = Some 1\<rparr>],
            tree = Some 0, curr_node = Some 1, curr_lvl = 1\<rparr>, None)
   \<and> tree_of (generate_tree [(0, ''A''), (1, ''B''), (2, ''C''), (1, ''D'')] None)
     = tree_of (generate_tree [(0, ''A''), (1, ''B''), (2, ''C'')] None)"
  by code_simp

subsection \<open>The first entry\<close>

text \<open>
  Claim C7, as stated, fails: the entries (1, X), (0, A) are accepted without any error,
  and the run returns the tree that is the single node A.
\<close>

theorem first_entry_counterexample:
  "generate_tree [(1, ''X''), (0, ''A'')] None
     = Inr ([\<lparr>name = ''X'', parent = None\<rparr>, \<lparr>name = ''A'', parent = None\<rparr>], Some 1)
   \<and> tree_of (generate_tree [(1, ''X''), (0, ''A'')] None) = Some (RNode ''A'' [])"
  by code_simp

text \<open>
  Claim C7, amended. The first entry processed creates the root when its depth is 0.
  When its depth is 1 it is accepted without a diagnostic: a node without parent is
  allocated and becomes the current node at level 1, and the tree stays \<^verbatim>\<open>None\<close>. For
  every other depth the call raises an exception.
\<close>

theorem first_entry:
  "adding_to_tree (fst init) index function =
     (if index = 0 then
        Inr \<lparr>nodes = [\<lparr>name = function, parent = None\<rparr>], tree = Some 0,
             curr_node = Some 0, curr_lvl = 0\<rparr>
      else if index = 1 then
        Inr \<lparr>nodes = [\<lparr>name = function, parent = None\<rparr>], tree = None,
             curr_node = Some 0, curr_lvl = 1\<rparr>
      else Inl AttributeError)"
proof -
  have "index < 0 \<Longrightarrow> nat (- index) = Suc (nat (- index - 1))" by simp
  then show ?thesis
    by (auto simp: adding_to_tree_def init_def Node_def)
qed

theorem first_entry_witness:
  "adding_to_tree (fst init) 1 ''X'' =
     Inr \<lparr>nodes = [\<lparr>name = ''X'', parent = None\<rparr>], tree = None,
          curr_node = Some 0, curr_lvl = 1\<rparr>
   \<and> adding_to_tree (fst init) 2 ''X'' = Inl AttributeError"
  using first_entry [of 1 "''X''"] first_entry [of 2 "''X''"] by simp

subsection \<open>The ascent rule\<close>

text \<open>
  Claim C1, as stated, fails at depth 0: after the entries (0, A), (1, B), (2, C) the
  current node is C at level 2, the root exists and 0 is less than 2, but an entry of
  depth 0 leaves the current node at C and the current level at 2.
\<close>

theorem ascent_depth0_counterexample:
  "generate_tree_loop None init [(0, ''A''), (1, ''B''), (2, ''C'')]
     = Inr (\<lparr>nodes = [\<lparr>name = ''A'', parent = None\<rparr>, \<lparr>name = ''B'', parent = Some 0\<rparr>,
              \<lparr>name = ''C'', parent = Some 1\<rparr>],
            tree = Some 0, curr_node = Some 2, curr_lvl = 2\<rparr>, None)
   \<and> adding_to_tree \<lparr>nodes = [\<lparr>name = ''A'', parent = None\<rparr>, \<lparr>name = ''B'', parent = Some 0\<rparr>,
              \<lparr>name = ''C'', parent = Some 1\<rparr>],
            tree = Some 0, curr_node = Some 2, curr_lvl = 2\<rparr> 0 ''A''
     = Inr \<lparr>nodes = [\<lparr>name = ''A'', parent = None\<rparr>, \<lparr>name = ''B'', parent = Some 0\<rparr>,
              \<lparr>name = ''C'', parent = Some 1\<rparr>],
            tree = Some 0, curr_node = Some 2, curr_lvl = 2\<rparr>"
  by code_simp

text \<open>
  Claim C1, amended to depths that are not 0. In every state the builder reaches in
  which the root exists, an entry whose depth \<open>index\<close> is positive and less than the
  current level moves the current node up \<open>curr_lvl - index\<close> parent links; the node
  \<open>a\<close> it lands on is the ancestor at depth \<open>index\<close> (from \<open>a\<close>, \<open>index\<close> parent links
  lead to the root); the current level becomes \<open>index\<close>; the store is unchanged, so
  no node is created and the label of the entry is lost.
\<close>

theorem ascent_moves_cursor:
  assumes "depths_ok data"
    and "generate_tree_loop filters_list init data = Inr (st, next_index)"
    and "tree st \<noteq> None"
    and "0 < index" and "index < curr_lvl st"
  shows "\<exists>a. walk_up (nodes st) (nat (curr_lvl st - index)) (curr_node st) = Inr (Some a)
     \<and> walk_up (nodes st) (nat index) (Some a) = Inr (tree st)
     \<and> adding_to_tree st index function = Inr (st\<lparr>curr_node := Some a, curr_lvl := index\<rparr>)"
proof -
  from reachable_rooted[OF assms(1-3)] have pb: "parent_before (nodes st)" and ro: "rooted st"
    by simp_all
  from rooted_ascent[OF pb ro assms(4,5)] obtain a where
    a: "walk_up (nodes st) (nat (curr_lvl st - index)) (curr_node st) = Inr (Some a)"
    "walk_up (nodes st) (nat index) (Some a) = Inr (tree st)"
    by blast
  with assms(4,5) have "adding_to_tree st index function
      = Inr (st\<lparr>curr_node := Some a, curr_lvl := index\<rparr>)"
    by (simp add: adding_to_tree_def)
  with a show ?thesis by blast
qed

theorem ascent_moves_cursor_witness:
  "depths_ok [(0, ''A''), (1, ''B''), (2, ''C''), (3, ''D'')]
   \<and> generate_tree_loop None init [(0, ''A''), (1, ''B''), (2, ''C''), (3, ''D'')]
     = Inr (\<lparr>nodes = [\<lparr>name = ''A'', parent = None\<rparr>, \<lparr>name = ''B'', parent = Some 0\<rparr>,
              \<lparr>name = ''C'', parent = Some 1\<rparr>, \<lparr>name = ''D'', parent = Some 2\<rparr>],
            tree = Some 0, curr_node = Some 3, curr_lvl = 3\<rparr>, None)
   \<and> adding_to_tree \<lparr>nodes = [\<lparr>name = ''A'', parent = None\<rparr>, \<lparr>name = ''B'', parent = Some 0\<rparr>,
              \<lparr>name = ''C'', parent = Some 1\<rparr>, \<lparr>name = ''D'', parent = Some 2\<rparr>],
            tree = Some 0, curr_node = Some 3, curr_lvl = 3\<rparr> 1 ''E''
     = Inr \<lparr>nodes = [\<lparr>name = ''A'', parent = None\<rparr>, \<lparr>name = ''B'', parent = Some 0\<rparr>,
              \<lparr>name = ''C'', parent = Some 1\<rparr>, \<lparr>name = ''D'', parent = Some 2\<rparr>],
            tree = Some 0, curr_node = Some 1, curr_lvl = 1\<rparr>"
proof -
  let ?es = "[(0, ''A''), (1, ''B''), (2, ''C''), (3, ''D'')] :: (int \<times> string) list"
  let ?h = "[\<lparr>name = ''A'', parent = None\<rparr>, \<lparr>name = ''B'', parent = Some 0\<rparr>,
              \<lparr>name = ''C'', parent = Some 1\<rparr>, \<lparr>name = ''D'', parent = Some 2\<rparr>]"
  let ?st = "\<lparr>nodes = ?h, tree = Some 0, curr_node = Some 3, curr_lvl = 3\<rparr>"
  have d: "depths_ok ?es" by (simp add: depths_ok_def)
  have l: "generate_tree_loop None init ?es = Inr (?st, None)" by code_simp
  have w: "walk_up ?h (nat (3 - 1)) (Some 3) = Inr (Some 1)" by code_simp
  from ascent_moves_cursor [OF d l, of 1 "''E''"] w
  have "adding_to_tree ?st 1 ''E'' = Inr (?st\<lparr>curr_node := Some 1, curr_lvl := 1\<rparr>)"
    by auto
  with d l show ?thesis by simp
qed

subsection \<open>Entries that are too deep\<close>

text \<open>
  Claim C6. In every state the builder reaches in which the root exists, an entry
  whose depth exceeds the current level plus 1 and that reaches \<^verbatim>\<open>adding_to_tree\<close> (no
  filter is given, or the filter step lets the entry through) makes \<^verbatim>\<open>adding_to_tree\<close>
  raise the ValueError that carries the label of the entry, its depth, the name of
  the current node and the current level; \<^verbatim>\<open>generate_tree\<close> ends with that error
  whatever entries follow.
\<close>

theorem too_deep_fails:
  assumes "depths_ok data"
    and "generate_tree_loop filters_list init data = Inr (st, next_index)"
    and "tree st \<noteq> None"
    and "curr_lvl st + 1 < index"
    and "case filters_list of None \<Rightarrow> True
         | Some fl \<Rightarrow> \<not> is_child_of_filtered next_index index \<and> \<not> is_filtered fl function"
  shows "\<exists>c. curr_node st = Some c
     \<and> adding_to_tree st index function
         = Inl (ValueError_add (curr_lvl st) function index (name (nodes st ! c)))
     \<and> generate_tree (data @ (index, function) # more_data) filters_list
         = Inl (ValueError_add (curr_lvl st) function index (name (nodes st ! c)))"
proof -
  from reachable_rooted[OF assms(1-3)] have ro: "rooted st" by simp
  then obtain c where c: "curr_node st = Some c" and l: "0 \<le> curr_lvl st"
    by (auto simp: rooted_def split: option.splits)
  let ?e = "ValueError_add (curr_lvl st) function index (name (nodes st ! c))"
  from c l assms(4) have a: "adding_to_tree st index function = Inl ?e"
    by (simp add: adding_to_tree_def)
  with assms(5) have "generate_tree_step filters_list (st, next_index) (index, function) = Inl ?e"
    by (auto simp: generate_tree_step_def split: option.splits)
  with assms(2) have "generate_tree (data @ (index, function) # more_data) filters_list = Inl ?e"
    by (simp add: generate_tree_def generate_tree_loop_append)
  with c a show ?thesis by blast
qed

theorem too_deep_fails_witness:
  "depths_ok [(0, ''A''), (1, ''B'')]
   \<and> generate_tree_loop (Some [''Bad'']) init [(0, ''A''), (1, ''B'')]
     = Inr (\<lparr>nodes = [\<lparr>name = ''A'', parent = None\<rparr>, \<lparr>name = ''B'', parent = Some 0\<rparr>],
            tree = Some 0, curr_node = Some 1, curr_lvl = 1\<rparr>, None)
   \<and> generate_tree ([(0, ''A''), (1, ''B'')] @ (3, ''C'') # [(1, ''D'')]) (Some [''Bad''])
     = Inl (ValueError_add 1 ''C'' 3 ''B'')"
proof -
  let ?es = "[(0, ''A''), (1, ''B'')] :: (int \<times> string) list"
  let ?st = "\<lparr>nodes = [\<lparr>name = ''A'', parent = None\<rparr>, \<lparr>name = ''B'', parent = Some 0\<rparr>],
            tree = Some 0, curr_node = Some 1, curr_lvl = 1\<rparr>"
  have d: "depths_ok ?es" by (simp add: depths_ok_def)
  have l: "generate_tree_loop (Some [''Bad'']) init ?es = Inr (?st, None)" by code_simp
  have f: "case Some [''Bad''] of None \<Rightarrow> True
         | Some fl \<Rightarrow> \<not> is_child_of_filtered None 3 \<and> \<not> is_filtered fl ''C''"
    by simp
  from too_deep_fails [OF d l _ _ f, of "[(1, ''D'')]"]
  have "generate_tree (?es @ (3, ''C'') # [(1, ''D'')]) (Some [''Bad''])
     = Inl (ValueError_add 1 ''C'' 3 ''B'')"
    by simp
  with d l show ?thesis by simp
qed

subsection \<open>Node attributes\<close>

text \<open>
  Claim C9, as stated, fails for a node whose module is empty: the line
  \<^verbatim>\<open>3 0 [  0] !f\<close> is parsed into the entry (0, !f), whose empty module is not added to
  the module list; the tree built from it has the node !f, and \<^verbatim>\<open>determine_node_att\<close>
  raises its ValueError for that node.
\<close>

theorem node_att_resolution_counterexample:
  "parse_input_file [''3 0 [  0] !f''] 9 [] = Inr ([(0, ''!f'')], [])
   \<and> generate_tree [(0, ''!f'')] None = Inr ([\<lparr>name = ''!f'', parent = None\<rparr>], Some 0)
   \<and> determine_node_att [] \<lparr>name = ''!f'', parent = None\<rparr> = Inl (ValueError_att [])"
  by code_simp

text \<open>
  Claim C9, amended. \<^verbatim>\<open>determine_node_att\<close> raises exactly when the module of the node
  (the text of its name before the first \<^verbatim>\<open>!\<close>) is not in the module list. For every
  node made by \<^verbatim>\<open>generate_tree\<close> from the entries that \<^verbatim>\<open>parse_input_file\<close> returned,
  with the module list it left: when the module of the node is not empty, the call
  returns attributes; when it is empty (and the list held no empty module before the
  parse, as the initial list \<^verbatim>\<open>[]\<close> does not), the call raises the ValueError.
\<close>

theorem node_att_resolution:
  assumes p: "parse_input_file data filter_level MODULES_LIST = Inr (entries, ms)"
    and g: "generate_tree entries filters_list = Inr (h, t)"
    and n: "nd \<in> set h"
  shows "((\<exists>e. determine_node_att ms nd = Inl e) = (module_of (name nd) \<notin> set ms))
    \<and> (module_of (name nd) \<noteq> [] \<longrightarrow> (\<exists>att. determine_node_att ms nd = Inr att))
    \<and> (module_of (name nd) = [] \<and> [] \<notin> set MODULES_LIST \<longrightarrow>
         determine_node_att ms nd = Inl (ValueError_att []))"
proof -
  from p have l: "parse_loop filter_level ([], MODULES_LIST) data = Inr (entries, ms)"
    by (auto simp: parse_input_file_def split: sum.splits if_splits)
  have "modules_recorded ([], MODULES_LIST)" by (simp add: modules_recorded_def)
  from parse_loop_recorded[OF l this] have rec: "modules_recorded (entries, ms)" .
  from generate_tree_names[OF g n] obtain e where e: "e \<in> set entries" "snd e = name nd"
    by auto
  have a: "module_of (name nd) \<noteq> [] \<longrightarrow> (\<exists>att. determine_node_att ms nd = Inr att)"
  proof
    assume "module_of (name nd) \<noteq> []"
    with rec e have "module_of (name nd) \<in> set ms" by (auto simp: modules_recorded_def)
    with determine_node_att_fails_iff[of ms nd] show "\<exists>att. determine_node_att ms nd = Inr att"
      by (cases "determine_node_att ms nd") auto
  qed
  have b: "module_of (name nd) = [] \<and> [] \<notin> set MODULES_LIST \<longrightarrow>
         determine_node_att ms nd = Inl (ValueError_att [])"
  proof
    assume h: "module_of (name nd) = [] \<and> [] \<notin> set MODULES_LIST"
    with parse_loop_no_empty[OF l] have "[] \<notin> set ms" by simp
    with h show "determine_node_att ms nd = Inl (ValueError_att [])"
      by (simp add: determine_node_att_def att_loop_absent)
  qed
  from a b determine_node_att_fails_iff[of ms nd] show ?thesis by blast
qed

theorem node_att_resolution_witness:
  "parse_input_file [''3 0 [  0] ntdll!f'', ''5 0 [  1] !g''] 9 []
     = Inr ([(0, ''ntdll!f''), (1, ''!g'')], [''ntdll''])
   \<and> generate_tree [(0, ''ntdll!f''), (1, ''!g'')] None
     = Inr ([\<lparr>name = ''ntdll!f'', parent = None\<rparr>, \<lparr>name = ''!g'', parent = Some 0\<rparr>], Some 0)
   \<and> (\<exists>att. determine_node_att [''ntdll''] \<lparr>name = ''ntdll!f'', parent = None\<rparr> = Inr att)
   \<and> determine_node_att [''ntdll''] \<lparr>name = ''!g'', parent = Some 0\<rparr> = Inl (ValueError_att [])"
proof -
  have p: "parse_input_file [''3 0 [  0] ntdll!f'', ''5 0 [  1] !g''] 9 []
     = Inr ([(0, ''ntdll!f''), (1, ''!g'')], [''ntdll''])"
    by code_simp
  have g: "generate_tree [(0, ''ntdll!f''), (1, ''!g'')] None
     = Inr ([\<lparr>name = ''ntdll!f'', parent = None\<rparr>, \<lparr>name = ''!g'', parent = Some 0\<rparr>], Some 0)"
    by code_simp
  have m: "module_of ''ntdll!f'' = ''ntdll''" "module_of ''!g'' = []"
    by (simp_all add: module_of_def)
  from node_att_resolution [OF p g, of "\<lparr>name = ''ntdll!f'', parent = None\<rparr>"] m
  have a: "\<exists>att. determine_node_att [''ntdll''] \<lparr>name = ''ntdll!f'', parent = None\<rparr> = Inr att"
    by simp
  from node_att_resolution [OF p g, of "\<lparr>name = ''!g'', parent = Some 0\<rparr>"] m
  have b: "determine_node_att [''ntdll''] \<lparr>name = ''!g'', parent = Some 0\<rparr> = Inl (ValueError_att [])"
    by simp
  from p g a b show ?thesis by blast
qed

subsection \<open>The parser\<close>




subsection \<open>The round trip\<close>

text \<open>
  Claim C5, as stated, fails: the entries (0, A), (0, B) start at depth 0 and the second
  one is at the level of the entry before it, which is the condition of the sibling
  rule; the run without a filter ignores the second entry, and the pre-order of the
  tree is A alone.
\<close>

theorem roundtrip_preorder_counterexample:
  "valid_sequence [(0, ''A''), (0, ''B'')]
   \<and> labels_of (generate_tree [(0, ''A''), (0, ''B'')] None) = Some [''A'']"
  by code_simp

text \<open>
  Claim C5, amended by one condition: no entry after the first is at depth 0. For every
  sequence of entries that starts at depth 0, in which every later entry is at a depth
  of at least 1 that is the depth of the entry before it or one more, the run without
  a filter returns a tree whose labels in pre-order are the labels of the entries, in
  their order.
\<close>

theorem roundtrip_preorder:
  assumes "valid_sequence data" and "deeper_after_first data"
  shows "labels_of (generate_tree data None) = Some (map snd data)"
  using assms by (rule unfiltered_labels)

theorem roundtrip_preorder_witness:
  "valid_sequence [(0, ''A''), (1, ''B''), (2, ''C''), (2, ''D''), (3, ''E''), (3, ''F'')]
   \<and> deeper_after_first [(0, ''A''), (1, ''B''), (2, ''C''), (2, ''D''), (3, ''E''), (3, ''F'')]
   \<and> labels_of (generate_tree
        [(0, ''A''), (1, ''B''), (2, ''C''), (2, ''D''), (3, ''E''), (3, ''F'')] None)
      = Some [''A'', ''B'', ''C'', ''D'', ''E'', ''F'']"
proof -
  let ?es = "[(0, ''A''), (1, ''B''), (2, ''C''), (2, ''D''), (3, ''E''), (3, ''F'')]
    :: (int \<times> string) list"
  have v: "valid_sequence ?es" by (simp add: valid_sequence_def)
  have p: "deeper_after_first ?es" by (simp add: deeper_after_first_def)
  from roundtrip_preorder [OF v p] v p show ?thesis by simp
qed

subsection \<open>Filtering and the labels of the tree\<close>

text \<open>
  Claim C4, as stated, fails: for the entries (0, A), (1, B), (2, Bad), (1, E) and the
  filter list \<open>[''Bad'']\<close>, the filtered tree has the labels A, B, E and the unfiltered
  tree the labels A, B, Bad. Without the filter the entry (1, E) is an ascent and its
  label is lost; with the filter it follows B at level 1 and becomes a sibling of B.
\<close>

theorem filtered_labels_subset_counterexample:
  "labels_of (generate_tree [(0, ''A''), (1, ''B''), (2, ''Bad''), (1, ''E'')] (Some [''Bad'']))
     = Some [''A'', ''B'', ''E'']
   \<and> labels_of (generate_tree [(0, ''A''), (1, ''B''), (2, ''Bad''), (1, ''E'')] None)
     = Some [''A'', ''B'', ''Bad'']
   \<and> ''E'' \<in> set [''A'', ''B'', ''E''] \<and> ''E'' \<notin> set [''A'', ''B'', ''Bad'']"
  by code_simp

text \<open>
  Claim C4, amended to the sequences of which the unfiltered run loses no label. For
  every sequence of entries and every filter list: when the unfiltered run returns a
  tree in which every label of the sequence is the label of a node (an ascent or an
  ignored entry of depth 0 repeats a label the tree already has, as the lines of a
  trace that return to a caller do), every label of the tree the filtered run returns
  is a label of the unfiltered tree.
\<close>

theorem filtered_labels_subset:
  assumes "generate_tree data None = Inr (h, Some r)"
    and "snd ` set data \<subseteq> set (preorder h r)"
    and "generate_tree data (Some fl) = Inr (hf, Some rf)"
  shows "set (preorder hf rf) \<subseteq> set (preorder h r)"
  using tree_labels_from_entries[OF assms(3)] assms(2) by (rule subset_trans)

theorem filtered_labels_subset_witness:
  "generate_tree
     [(0, ''A''), (1, ''B''), (2, ''Bad''), (3, ''C''), (1, ''B''), (2, ''E''), (0, ''A'')] None
     = Inr ([\<lparr>name = ''A'', parent = None\<rparr>, \<lparr>name = ''B'', parent = Some 0\<rparr>,
             \<lparr>name = ''Bad'', parent = Some 1\<rparr>, \<lparr>name = ''C'', parent = Some 2\<rparr>,
             \<lparr>name = ''E'', parent = Some 1\<rparr>], Some 0)
   \<and> snd ` set [(0 :: int, ''A''), (1, ''B''), (2, ''Bad''), (3, ''C''), (1, ''B''), (2, ''E''), (0, ''A'')]
       \<subseteq> set (preorder [\<lparr>name = ''A'', parent = None\<rparr>, \<lparr>name = ''B'', parent = Some 0\<rparr>,
             \<lparr>name = ''Bad'', parent = Some 1\<rparr>, \<lparr>name = ''C'', parent = Some 2\<rparr>,
             \<lparr>name = ''E'', parent = Some 1\<rparr>] 0)
   \<and> generate_tree
     [(0, ''A''), (1, ''B''), (2, ''Bad''), (3, ''C''), (1, ''B''), (2, ''E''), (0, ''A'')]
     (Some [''Bad''])
     = Inr ([\<lparr>name = ''A'', parent = None\<rparr>, \<lparr>name = ''B'', parent = Some 0\<rparr>,
             \<lparr>name = ''B'', parent = Some 0\<rparr>, \<lparr>name = ''E'', parent = Some 2\<rparr>], Some 0)
   \<and> set (preorder [\<lparr>name = ''A'', parent = None\<rparr>, \<lparr>name = ''B'', parent = Some 0\<rparr>,
             \<lparr>name = ''B'', parent = Some 0\<rparr>, \<lparr>name = ''E'', parent = Some 2\<rparr>] 0)
       \<subseteq> set (preorder [\<lparr>name = ''A'', parent = None\<rparr>, \<lparr>name = ''B'', parent = Some 0\<rparr>,
             \<lparr>name = ''Bad'', parent = Some 1\<rparr>, \<lparr>name = ''C'', parent = Some 2\<rparr>,
             \<lparr>name = ''E'', parent = Some 1\<rparr>] 0)"
proof -
  let ?es = "[(0, ''A''), (1, ''B''), (2, ''Bad''), (3, ''C''), (1, ''B''), (2, ''E''), (0, ''A'')]
    :: (int \<times> string) list"
  let ?h = "[\<lparr>name = ''A'', parent = None\<rparr>, \<lparr>name = ''B'', parent = Some 0\<rparr>,
             \<lparr>name = ''Bad'', parent = Some 1\<rparr>, \<lparr>name = ''C'', parent = Some 2\<rparr>,
             \<lparr>name = ''E'', parent = Some 1\<rparr>]"
  let ?hf = "[\<lparr>name = ''A'', parent = None\<rparr>, \<lparr>name = ''B'', parent = Some 0\<rparr>,
             \<lparr>name = ''B'', parent = Some 0\<rparr>, \<lparr>name = ''E'', parent = Some 2\<rparr>]"
  have u: "generate_tree ?es None = Inr (?h, Some 0)" by code_simp
  have f: "generate_tree ?es (Some [''Bad'']) = Inr (?hf, Some 0)" by code_simp
  have pre: "preorder ?h 0 = [''A'', ''B'', ''Bad'', ''C'', ''E'']" by code_simp
  have all: "snd ` set ?es \<subseteq> set (preorder ?h 0)" unfolding pre by simp
  from filtered_labels_subset [OF u all f] u all f show ?thesis by blast
qed

end
